theory Spec2Isabelle
  imports Complex_Main "HOL-Library.Monad_Syntax"
begin

unbundle bit_operations_syntax

section \<open>JavaScript numbers and typed arrays\<close>

text \<open>
  The analysis engine is JavaScript. A JS number is modelled as a \<^typ>\<open>real\<close>: the
  arithmetic is exact, and rounding to binary64 (or to binary32 in a \<open>Float32Array\<close>),
  \<open>NaN\<close> and the infinities are outside the model. The integer operators of the
  source (\<open>|\<close>, \<open><<\<close>, \<open>>>\<close>) work on 32-bit two's complement integers; they are
  modelled on \<^typ>\<open>int\<close> with the wrap-around written out. A loop that the wrap-around
  can keep running forever is a \<^theory_text>\<open>partial_function\<close> in the option monad, where
  \<open>None\<close> is "does not return".
\<close>

type_synonym number = real

datatype js_error = RangeError

definition wrap32 :: "int \<Rightarrow> int" where
  "wrap32 k = (k + 2 ^ 31) mod 2 ^ 32 - 2 ^ 31"

text \<open>\<open>x | 0\<close>: truncate towards zero, then wrap into the signed 32-bit range.\<close>

definition js_ToInt32 :: "number \<Rightarrow> int" where
  "js_ToInt32 x = wrap32 (if 0 \<le> x then \<lfloor>x\<rfloor> else \<lceil>x\<rceil>)"

text \<open>\<open>a << n\<close> on a 32-bit integer \<open>a\<close>: the shift count is taken modulo 32.\<close>

definition js_shl :: "int \<Rightarrow> int \<Rightarrow> int" where
  "js_shl a n = wrap32 (a * 2 ^ nat (n mod 32))"

text \<open>\<open>a >> 1\<close> on a 32-bit integer: the arithmetic shift rounds towards minus infinity.\<close>

definition js_shr1 :: "int \<Rightarrow> int" where
  "js_shr1 a = a div 2"

text \<open>\<open>a % b\<close>: the remainder has the sign of the dividend.\<close>

definition js_rem :: "int \<Rightarrow> int \<Rightarrow> int" where
  "js_rem a b = sgn a * (\<bar>a\<bar> mod \<bar>b\<bar>)"

text \<open>
  \<open>Math.pow(x, p)\<close> for a base \<open>x \<ge> 0\<close> and an exponent \<open>p \<ge> 0\<close>: JS gives
  \<open>pow(x, 0) = 1\<close> for every \<open>x\<close> and \<open>pow(0, p) = 0\<close> for \<open>p > 0\<close>. (For \<open>p < 0\<close>
  JS gives \<open>pow(0, p) = Infinity\<close>, which the model has no value for; the theorems
  below that depend on it assume \<open>p \<ge> 0\<close>.)
\<close>

definition js_pow :: "number \<Rightarrow> number \<Rightarrow> number" where
  "js_pow x p = (if p = 0 then 1 else if x = 0 then 0 else x powr p)"

definition hypot :: "number \<Rightarrow> number \<Rightarrow> number" where
  "hypot a b = sqrt (a * a + b * b)"

text \<open>\<open>new Float32Array(n)\<close>: \<open>n\<close> zeros, or a \<open>RangeError\<close> for a negative length.\<close>

definition new_Float32Array :: "int \<Rightarrow> js_error + number list" where
  "new_Float32Array n = (if n < 0 then Inl RangeError else Inr (replicate (nat n) 0))"

text \<open>\<open>dst.set(src, offset)\<close>, for \<open>offset + src.length \<le> dst.length\<close>.\<close>

definition typed_set :: "number list \<Rightarrow> number list \<Rightarrow> nat \<Rightarrow> number list" where
  "typed_set dst src offset = take offset dst @ src @ drop (offset + length src) dst"

section \<open>Window table (audio/windowing.js)\<close>

text \<open>
  \<open>hannWindow(size)\<close>. The cache of the source returns the table computed the first
  time, which holds the same values, so the model computes them.
\<close>

definition hannFill :: "int \<Rightarrow> number list \<Rightarrow> number list" where
  "hannFill sz w =
     (let factor = 2 * pi / (of_int sz - 1)
      in map (\<lambda>n. 0.5 * (1 - cos (factor * real n))) [0..<length w])"

definition hannWindow :: "int \<Rightarrow> js_error + number list" where
  "hannWindow sz =
     (case new_Float32Array sz of Inl e \<Rightarrow> Inl e | Inr w \<Rightarrow> Inr (hannFill sz w))"

section \<open>Real FFT (class RealFFT)\<close>

record RealFFT =
  size_fft :: int
  real_fft :: "number list"
  imag_fft :: "number list"
  magnitudes_fft :: "number list"
  bitRevTable :: "nat list"

definition new_RealFFT :: RealFFT where
  "new_RealFFT = \<lparr> size_fft = 0, real_fft = [], imag_fft = [], magnitudes_fft = [],
     bitRevTable = [] \<rparr>"

text \<open>The inner loop of \<open>ensureSize\<close>: \<open>for (; j & bit; bit >>= 1) j ^= bit; j ^= bit\<close>.\<close>

function bitRevCarry :: "nat \<Rightarrow> nat \<Rightarrow> nat" where
  "bitRevCarry j b =
     (if j AND b \<noteq> 0 then bitRevCarry (j XOR b) (b div 2) else j XOR b)"
  by pat_completeness auto
termination
proof (relation "measure (\<lambda>(j, b). b)")
  show "wf (measure (\<lambda>(j, b). b))" by simp
next
  fix j b :: nat
  assume "j AND b \<noteq> 0"
  then have "b \<noteq> 0" by (cases "b = 0") simp_all
  then show "((j XOR b, b div 2), (j, b)) \<in> measure (\<lambda>(j, b). b)" by simp
qed

declare bitRevCarry.simps [simp del]

text \<open>The outer loop of \<open>ensureSize\<close>, from index \<open>i\<close> with the running value \<open>j\<close>.\<close>

function bitRevLoop :: "nat \<Rightarrow> nat \<Rightarrow> nat \<Rightarrow> nat list \<Rightarrow> nat list" where
  "bitRevLoop i sz j tbl =
     (if i < sz
      then (let j' = bitRevCarry j (sz div 2) in bitRevLoop (i + 1) sz j' (tbl[i := j']))
      else tbl)"
  by pat_completeness auto
termination
  by (relation "measure (\<lambda>(i, sz, j, tbl). sz - i)") auto

declare bitRevLoop.simps [simp del]

definition ensureSize :: "int \<Rightarrow> RealFFT \<Rightarrow> RealFFT" where
  "ensureSize sz f =
     (if size_fft f = sz then f
      else f\<lparr> size_fft := sz,
              real_fft := replicate (nat sz) 0,
              imag_fft := replicate (nat sz) 0,
              magnitudes_fft := replicate (nat (sz div 2)) 0,
              bitRevTable := bitRevLoop 1 (nat sz) 0 (replicate (nat sz) 0) \<rparr>)"

text \<open>\<open>let size = 1; while (size < signal.length) size <<= 1;\<close>\<close>

partial_function (option) sizeLoop :: "int \<Rightarrow> int \<Rightarrow> int option" where
  "sizeLoop sz n = (if sz < n then sizeLoop (js_shl sz 1) n else Some sz)"

text \<open>The bit-reversal permutation of \<open>transform\<close>, from index \<open>i\<close>.\<close>

function bitReverseLoop ::
  "nat \<Rightarrow> nat \<Rightarrow> nat list \<Rightarrow> number list \<times> number list \<Rightarrow> number list \<times> number list" where
  "bitReverseLoop i sz tbl (re, im) =
     (if i < sz
      then (let j = tbl ! i
            in bitReverseLoop (i + 1) sz tbl
                 (if i < j then (re[i := re ! j, j := re ! i], im[i := im ! j, j := im ! i])
                  else (re, im)))
      else (re, im))"
  by pat_completeness auto
termination
  by (relation "measure (\<lambda>(i, sz, tbl, st). sz - i)") auto

declare bitReverseLoop.simps [simp del]

text \<open>
  The innermost loop of the Cooley-Tukey pass: the butterflies \<open>k = 0 .. halfLen - 1\<close> of the
  block that starts at \<open>i\<close>, with the running twiddle factor \<open>(wRe, wIm)\<close>.
\<close>

function butterflyLoop ::
  "int \<Rightarrow> int \<Rightarrow> int \<Rightarrow> number \<times> number \<Rightarrow> number \<times> number
     \<Rightarrow> number list \<times> number list \<Rightarrow> number list \<times> number list" where
  "butterflyLoop k halfLen i (wRe, wIm) (wlenRe, wlenIm) (re, im) =
     (if k < halfLen
      then (let a = nat (i + k);
                b = nat (i + k + halfLen);
                uRe = re ! a;
                uIm = im ! a;
                vRe = re ! b * wRe - im ! b * wIm;
                vIm = re ! b * wIm + im ! b * wRe;
                re' = re[a := uRe + vRe, b := uRe - vRe];
                im' = im[a := uIm + vIm, b := uIm - vIm];
                nextWRe = wRe * wlenRe - wIm * wlenIm;
                nextWIm = wRe * wlenIm + wIm * wlenRe
            in butterflyLoop (k + 1) halfLen i (nextWRe, nextWIm) (wlenRe, wlenIm) (re', im'))
      else (re, im))"
  by pat_completeness auto
termination
  by (relation "measure (\<lambda>(k, halfLen, i, w, wlen, st). nat (halfLen - k))") auto

declare butterflyLoop.simps [simp del]

text \<open>\<open>for (let i = 0; i < size; i += len)\<close>: it does not return when \<open>len \<le> 0\<close>.\<close>

partial_function (option) blockLoop ::
  "int \<Rightarrow> int \<Rightarrow> int \<Rightarrow> number \<times> number \<Rightarrow> number list \<times> number list
     \<Rightarrow> (number list \<times> number list) option" where
  "blockLoop i len sz wlen st =
     (if i < sz
      then blockLoop (i + len) len sz wlen (butterflyLoop 0 (js_shr1 len) i (1, 0) wlen st)
      else Some st)"

text \<open>\<open>for (let len = 2; len <= size; len <<= 1)\<close>, with the 32-bit shift.\<close>

partial_function (option) stageLoop ::
  "int \<Rightarrow> int \<Rightarrow> number list \<times> number list \<Rightarrow> (number list \<times> number list) option" where
  "stageLoop len sz st =
     (if len \<le> sz
      then Option.bind
             (blockLoop 0 len sz (cos (- 2 * pi / of_int len), sin (- 2 * pi / of_int len)) st)
             (\<lambda>st'. stageLoop (js_shl len 1) sz st')
      else Some st)"

text \<open>
  \<open>transform(signal)\<close>: the magnitudes of the first \<open>size / 2\<close> bins and the updated
  engine, or \<open>None\<close> when one of the loops above does not return.
\<close>

definition transform :: "number list \<Rightarrow> RealFFT \<Rightarrow> (number list \<times> RealFFT) option" where
  "transform signal f =
     Option.bind (sizeLoop 1 (int (length signal))) (\<lambda>sz.
       let f1 = ensureSize sz f;
           re0 = typed_set (replicate (length (real_fft f1)) 0) signal 0;
           im0 = replicate (length (imag_fft f1)) 0;
           st1 = bitReverseLoop 1 (nat sz) (bitRevTable f1) (re0, im0)
       in Option.bind (stageLoop 2 sz st1) (\<lambda>(re2, im2).
            let half = js_shr1 sz;
                mags = map (\<lambda>i. hypot (re2 ! i) (im2 ! i)) [0..<nat half]
            in Some (mags, f1\<lparr> real_fft := re2, imag_fft := im2, magnitudes_fft := mags \<rparr>)))"

section \<open>Configuration records (audio/processor.js)\<close>

record audio_config =
  windowSize :: int
  hopSize :: int
  minHz :: number
  maxHz :: number
  smoothing :: number
  pcdMinRms :: number
  pcdThreshold :: number
  pcdNormalize :: number
  refA4 :: number

definition DEFAULT_AUDIO_CONFIG :: audio_config where
  "DEFAULT_AUDIO_CONFIG = \<lparr> windowSize = 16384, hopSize = 1024, minHz = 50, maxHz = 5000,
     smoothing = 0.6, pcdMinRms = 0.001, pcdThreshold = 0.005, pcdNormalize = 1.0,
     refA4 = 440 \<rparr>"

record tuner_config =
  enabled :: bool
  minHz_tuner :: number
  maxHz_tuner :: number
  minProminence :: number
  minRMS :: number
  reactivity :: number

definition DEFAULT_TUNER_CONFIG :: tuner_config where
  "DEFAULT_TUNER_CONFIG = \<lparr> enabled = True, minHz_tuner = 70, maxHz_tuner = 1800,
     minProminence = 6.0, minRMS = 0.003, reactivity = 0.35 \<rparr>"

section \<open>Pitch-class mapper (class PitchClassComputer)\<close>

record PitchClassComputer =
  lookupTable :: "nat list option"
  prevSampleRate :: number
  prevA4 :: number
  prevLength :: nat
  output_pcd :: "number list"
  zero_pcd :: "number list"

definition new_PitchClassComputer :: PitchClassComputer where
  "new_PitchClassComputer = \<lparr> lookupTable = None, prevSampleRate = 0, prevA4 = 0,
     prevLength = 0, output_pcd = replicate 12 0, zero_pcd = replicate 12 0 \<rparr>"

text \<open>\<open>((Math.round(midi) % 12) + 12) % 12\<close>; \<open>Math.round\<close> rounds a half upwards.\<close>

definition wrap12 :: "int \<Rightarrow> nat" where
  "wrap12 r = nat (js_rem (js_rem r 12 + 12) 12)"

text \<open>The body of the table loop of \<open>ensureLookup\<close> for bin \<open>k\<close>.\<close>

definition lookupEntry :: "number \<Rightarrow> number \<Rightarrow> nat \<Rightarrow> nat" where
  "lookupEntry binHz log2A4 k =
     (let freq = real k * binHz
      in if freq > 0
         then (let midi = 69 + 12 * (log 2 freq - log2A4) in wrap12 (round midi))
         else 0)"

definition buildLookup :: "nat \<Rightarrow> number \<Rightarrow> number \<Rightarrow> nat list" where
  "buildLookup len sampleRate a4 =
     (let binHz = sampleRate / (real len * 2);
          log2A4 = log 2 a4
      in map (lookupEntry binHz log2A4) [0..<len])"

definition ensureLookup ::
  "nat \<Rightarrow> number \<Rightarrow> number \<Rightarrow> PitchClassComputer \<Rightarrow> PitchClassComputer" where
  "ensureLookup len sampleRate a4 c =
     (if lookupTable c \<noteq> None \<and> prevSampleRate c = sampleRate \<and> prevA4 c = a4
         \<and> prevLength c = len
      then c
      else c\<lparr> prevSampleRate := sampleRate, prevA4 := a4, prevLength := len,
              lookupTable := Some (buildLookup len sampleRate a4) \<rparr>)"

text \<open>The aggregation loop of \<open>compute\<close>: \<open>for (let k = minBin; k <= maxBin; k++)\<close>.\<close>

function accumulate ::
  "int \<Rightarrow> int \<Rightarrow> number list \<Rightarrow> number \<Rightarrow> nat list \<Rightarrow> number list \<Rightarrow> number list" where
  "accumulate k maxBin mags threshold tbl out =
     (if k \<le> maxBin
      then (let mag = mags ! nat k
            in accumulate (k + 1) maxBin mags threshold tbl
                 (if mag > threshold
                  then (let pitchClass = tbl ! nat k
                        in out[pitchClass := out ! pitchClass + mag * mag])
                  else out))
      else out)"
  by pat_completeness auto
termination
  by (relation "measure (\<lambda>(k, maxBin, mags, threshold, tbl, out). nat (maxBin + 1 - k))") auto

declare accumulate.simps [simp del]

text \<open>
  \<open>compute(magnitudes, sampleRate, options)\<close>; the orchestrator passes its configuration
  as the options. The result is the output buffer and the updated mapper.
\<close>

definition compute ::
  "number list \<Rightarrow> number \<Rightarrow> audio_config \<Rightarrow> PitchClassComputer
     \<Rightarrow> number list \<times> PitchClassComputer" where
  "compute magnitudes sampleRate options c =
     (let c1 = ensureLookup (length magnitudes) sampleRate (refA4 options) c;
          out0 = replicate (length (output_pcd c1)) 0;
          binHz = sampleRate / (real (length magnitudes) * 2);
          minBin = max 1 \<lfloor>minHz options / binHz\<rfloor>;
          maxBin = min (int (length magnitudes) - 1) \<lfloor>maxHz options / binHz\<rfloor>;
          tbl = (case lookupTable c1 of Some t \<Rightarrow> t | None \<Rightarrow> []);
          out1 = accumulate minBin maxBin magnitudes (pcdThreshold options) tbl out0;
          out2 = (if pcdNormalize options \<noteq> 1
                  then map (\<lambda>x. js_pow x (pcdNormalize options)) out1 else out1);
          sm = sum_list out2;
          out3 = (if sm > 0 then (let inv = 1 / sm in map (\<lambda>x. x * inv) out2) else out2)
      in (out3, c1\<lparr> output_pcd := out3 \<rparr>))"

definition getSilentOutput :: "PitchClassComputer \<Rightarrow> number list \<times> PitchClassComputer" where
  "getSilentOutput c =
     (let z = replicate (length (zero_pcd c)) 0 in (z, c\<lparr> zero_pcd := z \<rparr>))"

section \<open>Primary pitch estimator (estimatePrimary)\<close>

record estimate =
  freq :: number
  kRef :: number
  prominenceDb :: number

text \<open>The peak search: \<open>for (let i = kMin; i <= kMax; i++)\<close> with the running maximum.\<close>

function peakLoop :: "int \<Rightarrow> int \<Rightarrow> number list \<Rightarrow> number \<times> int \<Rightarrow> number \<times> int" where
  "peakLoop i kMax mags (maxVal, k) =
     (if i \<le> kMax
      then (let v = mags ! nat i
            in peakLoop (i + 1) kMax mags (if v > maxVal then (v, i) else (maxVal, k)))
      else (maxVal, k))"
  by pat_completeness auto
termination
  by (relation "measure (\<lambda>(i, kMax, mags, st). nat (kMax + 1 - i))") auto

declare peakLoop.simps [simp del]

text \<open>The neighbourhood average: \<open>for (let i = from; i <= to; i += 2)\<close>.\<close>

function neighborLoop ::
  "int \<Rightarrow> int \<Rightarrow> int \<Rightarrow> number list \<Rightarrow> number \<times> nat \<Rightarrow> number \<times> nat" where
  "neighborLoop i to k mags (sm, count) =
     (if i \<le> to
      then neighborLoop (i + 2) to k mags
             (if i \<noteq> k then (sm + mags ! nat i, count + 1) else (sm, count))
      else (sm, count))"
  by pat_completeness auto
termination
  by (relation "measure (\<lambda>(i, to, k, mags, st). nat (to + 1 - i))") auto

declare neighborLoop.simps [simp del]

definition estimatePrimary ::
  "number list \<Rightarrow> number \<Rightarrow> number \<Rightarrow> number \<Rightarrow> estimate option" where
  "estimatePrimary magnitudes sampleRate lo hi =
     (let halfSize = int (length magnitudes);
          binHz = sampleRate / (of_int halfSize * 2);
          kMin = max 2 \<lfloor>lo / binHz\<rfloor>;
          kMax = min (halfSize - 3) \<lfloor>hi / binHz\<rfloor>;
          (maxVal, k) = peakLoop kMin kMax magnitudes (0, kMin)
      in if maxVal < 1 / 10 ^ 6 then None
         else (let neighborhood = 10;
                   from = max kMin (k - neighborhood);
                   to = min kMax (k + neighborhood);
                   (sm, count) = neighborLoop from to k magnitudes (0, 0);
                   avgNeighbor = (if count > 0 then sm / real count else 0);
                   prominence =
                     (if avgNeighbor > 0
                      then 20 * log 10 ((maxVal + 1 / 10 ^ 12) / (avgNeighbor + 1 / 10 ^ 12))
                      else 0);
                   a = magnitudes ! nat (k - 1);
                   b = magnitudes ! nat k;
                   c = magnitudes ! nat (k + 1);
                   denom = (if a - 2 * b + c \<noteq> 0 then a - 2 * b + c else 1 / 10 ^ 12);
                   delta = 0.5 * (a - c) / denom;
                   kr = of_int k + max (- 1) (min 1 delta)
               in Some \<lparr> freq = kr * binHz, kRef = kr, prominenceDb = prominence \<rparr>))"

section \<open>Stream orchestrator (class AudioProcessor)\<close>

definition frameRms :: "number list \<Rightarrow> number" where
  "frameRms buffer = sqrt (foldl (\<lambda>acc sample. acc + sample * sample) 0 buffer
                             / real (length buffer))"

definition toPowerOfTwo :: "number \<Rightarrow> int" where
  "toPowerOfTwo v =
     (let clamped = max 32 (js_ToInt32 v);
          exponent = round (log 2 (of_int clamped))
      in js_shl 1 (max 5 exponent))"

definition clamp :: "number \<Rightarrow> number \<Rightarrow> number \<Rightarrow> number" where
  "clamp v lo hi = min hi (max lo v)"

record primary_pitch =
  freq_primary :: number
  prominenceDb_primary :: number
  cents :: number
  pitchClass :: nat
  nearestMidi :: int
  midi :: number

text \<open>The detail of an \<open>analysis\<close> event (without the audio clock).\<close>

record analysis_detail =
  pcd :: "number list"
  rawPcd_detail :: "number list"
  rms :: number
  magnitudes :: "number list"
  primary :: "primary_pitch option"
  sampleRate_detail :: number

datatype event = Analysis analysis_detail | StateChange bool | ErrorEvent js_error

text \<open>
  The fields of the orchestrator that the analysis uses. \<open>dispatched\<close> is the list of
  the events dispatched so far, oldest first. The audio graph (context, worklet,
  microphone stream) is outside the model; \<open>start\<close> and \<open>stop\<close> are seen through
  \<open>running\<close>, \<open>sampleRate\<close> and \<open>resetBuffers\<close>.
\<close>

record AudioProcessor =
  config :: audio_config
  tunerConfig :: tuner_config
  sampleRate :: number
  running :: bool
  fft :: RealFFT
  pcdComputer :: PitchClassComputer
  windowFn :: "number list"
  ringBuffer :: "number list"
  analysisBuffer :: "number list"
  writeIndex :: int
  filled :: int
  hopCounter :: int
  currentPcd :: "number list"
  rawPcd :: "number list"
  lastRms :: number
  dispatched :: "event list"

text \<open>The constructor, for a configuration already merged with the defaults.\<close>

definition fresh_processor :: "audio_config \<Rightarrow> tuner_config \<Rightarrow> number list \<Rightarrow> AudioProcessor" where
  "fresh_processor cfg tuner w =
     \<lparr> config = cfg, tunerConfig = tuner, sampleRate = 48000, running = False,
       fft = new_RealFFT, pcdComputer = new_PitchClassComputer, windowFn = w,
       ringBuffer = replicate (nat (windowSize cfg)) 0,
       analysisBuffer = replicate (nat (windowSize cfg)) 0,
       writeIndex = 0, filled = 0, hopCounter = 0,
       currentPcd = replicate 12 0, rawPcd = replicate 12 0, lastRms = 0,
       dispatched = [] \<rparr>"

definition new_AudioProcessor :: "audio_config \<Rightarrow> tuner_config \<Rightarrow> js_error + AudioProcessor" where
  "new_AudioProcessor cfg tuner =
     (case hannWindow (windowSize cfg) of
        Inl e \<Rightarrow> Inl e
      | Inr w \<Rightarrow> Inr (fresh_processor cfg tuner w))"

text \<open>The orchestrator that \<open>new AudioProcessor()\<close> builds from the defaults.\<close>

definition default_processor :: AudioProcessor where
  "default_processor =
     fresh_processor DEFAULT_AUDIO_CONFIG DEFAULT_TUNER_CONFIG
       (hannFill 16384 (replicate 16384 0))"

definition resetBuffers :: "AudioProcessor \<Rightarrow> AudioProcessor" where
  "resetBuffers p =
     p\<lparr> writeIndex := 0, filled := 0, hopCounter := 0,
        ringBuffer := replicate (length (ringBuffer p)) 0,
        analysisBuffer := replicate (length (analysisBuffer p)) 0,
        currentPcd := replicate (length (currentPcd p)) 0,
        rawPcd := replicate (length (rawPcd p)) 0,
        lastRms := 0 \<rparr>"

definition setRunning :: "bool \<Rightarrow> AudioProcessor \<Rightarrow> AudioProcessor" where
  "setRunning v p =
     (if running p = v then p
      else p\<lparr> running := v, dispatched := dispatched p @ [StateChange v] \<rparr>)"

text \<open>
  \<open>start()\<close> when the microphone and the audio graph are acquired: the sample rate of
  the audio context is stored, the buffers are reset and the state changes to running.
  \<open>stop()\<close> of a running orchestrator: the state changes, then the buffers are reset.
\<close>

definition start_acquired :: "number \<Rightarrow> AudioProcessor \<Rightarrow> AudioProcessor" where
  "start_acquired rate p =
     (if running p then p else setRunning True (resetBuffers (p\<lparr> sampleRate := rate \<rparr>)))"

definition stop_running :: "AudioProcessor \<Rightarrow> AudioProcessor" where
  "stop_running p = (if \<not> running p then p else resetBuffers (setRunning False p))"

subsection \<open>Configuration updates\<close>

text \<open>
  The argument of \<open>updateConfig\<close>: a field is \<open>None\<close> when the update object does not
  have it (it reads as \<open>undefined\<close>).
\<close>

record audio_updates =
  upd_windowSize :: "number option"
  upd_hopSize :: "number option"
  upd_minHz :: "number option"
  upd_maxHz :: "number option"
  upd_smoothing :: "number option"
  upd_pcdMinRms :: "number option"
  upd_pcdThreshold :: "number option"
  upd_pcdNormalize :: "number option"
  upd_refA4 :: "number option"

definition no_updates :: audio_updates where
  "no_updates = \<lparr> upd_windowSize = None, upd_hopSize = None, upd_minHz = None,
     upd_maxHz = None, upd_smoothing = None, upd_pcdMinRms = None, upd_pcdThreshold = None,
     upd_pcdNormalize = None, upd_refA4 = None \<rparr>"

text \<open>
  The first block of \<open>updateConfig\<close> (the window size). The result is the orchestrator
  and \<open>reinitWindow\<close>, or the error thrown by an allocation together with the
  orchestrator as the statements before the throw left it.
\<close>

definition updateWindow ::
  "number option \<Rightarrow> AudioProcessor \<Rightarrow> js_error \<times> AudioProcessor + bool \<times> AudioProcessor" where
  "updateWindow w p =
     (case w of
        None \<Rightarrow> Inr (False, p)
      | Some v \<Rightarrow>
          if v \<noteq> 0 \<and> v \<noteq> of_int (windowSize (config p))
          then (let sz = toPowerOfTwo v
                in if sz \<noteq> windowSize (config p)
                   then (let p1 = p\<lparr> config := (config p)\<lparr> windowSize := sz \<rparr> \<rparr>
                         in case hannWindow sz of
                              Inl e \<Rightarrow> Inl (e, p1)
                            | Inr wfn \<Rightarrow>
                                (case new_Float32Array sz of
                                   Inl e \<Rightarrow> Inl (e, p1\<lparr> windowFn := wfn \<rparr>)
                                 | Inr buf \<Rightarrow>
                                     Inr (True, p1\<lparr> windowFn := wfn, ringBuffer := buf,
                                                   analysisBuffer := buf \<rparr>)))
                   else Inr (False, p))
          else Inr (False, p))"

text \<open>
  The field updates between the window block and the reset, one function for each
  \<open>if\<close> of the source, in the order of the source.
\<close>

definition applyHopSize :: "number option \<Rightarrow> audio_config \<Rightarrow> audio_config" where
  "applyHopSize h cfg =
     (case h of
        Some v \<Rightarrow> if v \<noteq> 0 then cfg\<lparr> hopSize := max 1 (js_ToInt32 v) \<rparr> else cfg
      | None \<Rightarrow> cfg)"

definition applyMinHz :: "number option \<Rightarrow> audio_config \<Rightarrow> audio_config" where
  "applyMinHz h cfg = (case h of Some v \<Rightarrow> cfg\<lparr> minHz := max 0 v \<rparr> | None \<Rightarrow> cfg)"

definition applyMaxHz :: "number option \<Rightarrow> audio_config \<Rightarrow> audio_config" where
  "applyMaxHz h cfg =
     (case h of Some v \<Rightarrow> cfg\<lparr> maxHz := max (minHz cfg + 1) v \<rparr> | None \<Rightarrow> cfg)"

definition fixBand :: "audio_config \<Rightarrow> audio_config" where
  "fixBand cfg = (if maxHz cfg \<le> minHz cfg then cfg\<lparr> maxHz := minHz cfg + 1 \<rparr> else cfg)"

definition applySmoothing :: "number option \<Rightarrow> audio_config \<Rightarrow> audio_config" where
  "applySmoothing h cfg =
     (case h of Some v \<Rightarrow> cfg\<lparr> smoothing := clamp v 0 0.999 \<rparr> | None \<Rightarrow> cfg)"

definition applyPcdMinRms :: "number option \<Rightarrow> audio_config \<Rightarrow> audio_config" where
  "applyPcdMinRms h cfg = (case h of Some v \<Rightarrow> cfg\<lparr> pcdMinRms := max 0 v \<rparr> | None \<Rightarrow> cfg)"

definition applyPcdThreshold :: "number option \<Rightarrow> audio_config \<Rightarrow> audio_config" where
  "applyPcdThreshold h cfg =
     (case h of Some v \<Rightarrow> cfg\<lparr> pcdThreshold := max 0 v \<rparr> | None \<Rightarrow> cfg)"

definition applyPcdNormalize :: "number option \<Rightarrow> audio_config \<Rightarrow> audio_config" where
  "applyPcdNormalize h cfg =
     (case h of Some v \<Rightarrow> cfg\<lparr> pcdNormalize := max 0.1 v \<rparr> | None \<Rightarrow> cfg)"

definition applyRefA4 :: "number option \<Rightarrow> audio_config \<Rightarrow> audio_config" where
  "applyRefA4 h cfg = (case h of Some v \<Rightarrow> cfg\<lparr> refA4 := max 1 v \<rparr> | None \<Rightarrow> cfg)"

definition updateFields :: "audio_updates \<Rightarrow> audio_config \<Rightarrow> audio_config" where
  "updateFields u cfg =
     applyRefA4 (upd_refA4 u)
       (applyPcdNormalize (upd_pcdNormalize u)
         (applyPcdThreshold (upd_pcdThreshold u)
           (applyPcdMinRms (upd_pcdMinRms u)
             (applySmoothing (upd_smoothing u)
               (fixBand
                 (applyMaxHz (upd_maxHz u)
                   (applyMinHz (upd_minHz u)
                     (applyHopSize (upd_hopSize u) cfg))))))))"

text \<open>
  \<open>updateConfig(updates)\<close>: \<open>(None, p')\<close> when the call returns, \<open>(Some e, p')\<close> when it
  throws \<open>e\<close>; \<open>p'\<close> is the orchestrator afterwards.
\<close>

definition updateConfig :: "audio_updates \<Rightarrow> AudioProcessor \<Rightarrow> js_error option \<times> AudioProcessor" where
  "updateConfig u p =
     (case updateWindow (upd_windowSize u) p of
        Inl (e, p1) \<Rightarrow> (Some e, p1)
      | Inr (reinitWindow, p1) \<Rightarrow>
          let p2 = p1\<lparr> config := updateFields u (config p1) \<rparr>;
              p3 = (if reinitWindow then resetBuffers p2 else p2)
          in (None, p3\<lparr> config := (config p3)\<lparr> hopSize :=
                             min (hopSize (config p3)) (windowSize (config p3)) \<rparr> \<rparr>))"

text \<open>The argument of \<open>updateTuner\<close>, and \<open>Object.assign(this.tunerConfig, updates)\<close>.\<close>

record tuner_updates =
  upd_enabled :: "bool option"
  upd_minHz_tuner :: "number option"
  upd_maxHz_tuner :: "number option"
  upd_minProminence :: "number option"
  upd_minRMS :: "number option"
  upd_reactivity :: "number option"

definition no_tuner_updates :: tuner_updates where
  "no_tuner_updates = \<lparr> upd_enabled = None, upd_minHz_tuner = None, upd_maxHz_tuner = None,
     upd_minProminence = None, upd_minRMS = None, upd_reactivity = None \<rparr>"

definition assign :: "'a option \<Rightarrow> 'a \<Rightarrow> 'a" where
  "assign u old = (case u of Some v \<Rightarrow> v | None \<Rightarrow> old)"

definition updateTuner :: "tuner_updates \<Rightarrow> AudioProcessor \<Rightarrow> AudioProcessor" where
  "updateTuner u p =
     (let t = tunerConfig p
      in p\<lparr> tunerConfig :=
              \<lparr> enabled = assign (upd_enabled u) (enabled t),
                minHz_tuner = assign (upd_minHz_tuner u) (minHz_tuner t),
                maxHz_tuner = assign (upd_maxHz_tuner u) (maxHz_tuner t),
                minProminence = assign (upd_minProminence u) (minProminence t),
                minRMS = assign (upd_minRMS u) (minRMS t),
                reactivity = assign (upd_reactivity u) (reactivity t) \<rparr> \<rparr>)"

subsection \<open>The per-hop pipeline\<close>

text \<open>The analysis frame: the ring buffer from its oldest sample on.\<close>

definition linearize :: "AudioProcessor \<Rightarrow> number list" where
  "linearize p =
     (let start = js_rem (writeIndex p) (windowSize (config p));
          first = drop (nat start) (ringBuffer p);
          a1 = typed_set (analysisBuffer p) first 0
      in if start > 0 then typed_set a1 (take (nat start) (ringBuffer p)) (length first)
         else a1)"

text \<open>\<open>for (let i = 0; i < windowSize; i++) analysisBuffer[i] *= windowFn[i]\<close>\<close>

definition applyWindow :: "int \<Rightarrow> number list \<Rightarrow> number list \<Rightarrow> number list" where
  "applyWindow n w buf = fold (\<lambda>i a. a[i := a ! i * w ! i]) [0..<nat n] buf"

text \<open>The gate and the aggregation: the raw distribution of the hop.\<close>

definition rawStage ::
  "number \<Rightarrow> number list \<Rightarrow> AudioProcessor \<Rightarrow> number list \<times> PitchClassComputer" where
  "rawStage r mags p =
     (if r \<ge> pcdMinRms (config p)
      then compute mags (sampleRate p) (config p) (pcdComputer p)
      else getSilentOutput (pcdComputer p))"

text \<open>\<open>for (let i = 0; i < 12; i++) currentPcd[i] = smoothing * currentPcd[i] + beta * rawPcd[i]\<close>\<close>

definition smoothLoop :: "number \<Rightarrow> number \<Rightarrow> number list \<Rightarrow> number list \<Rightarrow> number list" where
  "smoothLoop s beta raw cur = fold (\<lambda>i c. c[i := s * c ! i + beta * raw ! i]) [0..<12] cur"

text \<open>The distribution part of \<open>processFrame\<close>: the gate, the copy of the raw
  distribution and the exponential smoothing.\<close>

definition pcdStage :: "number \<Rightarrow> number list \<Rightarrow> AudioProcessor \<Rightarrow> AudioProcessor" where
  "pcdStage r mags p =
     (let (raw, c') = rawStage r mags p;
          raw' = typed_set (rawPcd p) raw 0;
          s = clamp (smoothing (config p)) 0 0.999;
          beta = 1 - s
      in p\<lparr> pcdComputer := c', rawPcd := raw', currentPcd := smoothLoop s beta raw' (currentPcd p) \<rparr>)"

text \<open>The tuner part of \<open>processFrame\<close>: the primary pitch of the hop, if any.\<close>

definition tunerStage :: "number \<Rightarrow> number list \<Rightarrow> AudioProcessor \<Rightarrow> primary_pitch option" where
  "tunerStage r mags p =
     (if enabled (tunerConfig p) \<and> r \<ge> minRMS (tunerConfig p)
      then (case estimatePrimary mags (sampleRate p) (minHz_tuner (tunerConfig p))
                   (maxHz_tuner (tunerConfig p)) of
              None \<Rightarrow> None
            | Some est \<Rightarrow>
                if prominenceDb est \<ge> minProminence (tunerConfig p)
                then (let midiReal = 69 + 12 * log 2 (freq est / refA4 (config p));
                          nearest = round midiReal
                      in Some \<lparr> freq_primary = freq est, prominenceDb_primary = prominenceDb est,
                                cents = (midiReal - of_int nearest) * 100,
                                pitchClass = wrap12 nearest, nearestMidi = nearest,
                                midi = midiReal \<rparr>)
                else None)
      else None)"

text \<open>
  \<open>processFrame()\<close>. \<open>None\<close> when the transform does not return. Nothing in the body
  throws for buffers of one length, so the \<open>catch\<close> branch is not modelled.
\<close>

definition processFrame :: "AudioProcessor \<Rightarrow> AudioProcessor option" where
  "processFrame p =
     (if \<not> running p then Some p
      else (let frame = applyWindow (windowSize (config p)) (windowFn p) (linearize p);
                r = frameRms frame
            in Option.bind (transform frame (fft p)) (\<lambda>(mags, f').
                 let p1 = pcdStage r mags (p\<lparr> analysisBuffer := frame, lastRms := r, fft := f' \<rparr>);
                     detail = \<lparr> pcd = currentPcd p1, rawPcd_detail = rawPcd p1, rms = r,
                                magnitudes = mags, primary = tunerStage r mags p1,
                                sampleRate_detail = sampleRate p1 \<rparr>
                 in Some (p1\<lparr> dispatched := dispatched p1 @ [Analysis detail] \<rparr>))))"

text \<open>
  The body of the sample loop of \<open>handleAudioFrame\<close>, for one sample: the store into the
  ring buffer with the three counters, then the test that starts a hop.
\<close>

definition storeSample :: "int \<Rightarrow> number \<Rightarrow> AudioProcessor \<Rightarrow> AudioProcessor" where
  "storeSample wSize x p =
     (let p1 = p\<lparr> ringBuffer := (ringBuffer p)[nat (writeIndex p) := x],
                  writeIndex := writeIndex p + 1 \<rparr>;
          p2 = (if writeIndex p1 \<ge> wSize then p1\<lparr> writeIndex := 0 \<rparr> else p1);
          p3 = (if filled p2 < wSize then p2\<lparr> filled := filled p2 + 1 \<rparr> else p2)
      in p3\<lparr> hopCounter := hopCounter p3 + 1 \<rparr>)"

definition pushSample :: "int \<Rightarrow> number \<Rightarrow> AudioProcessor \<Rightarrow> AudioProcessor option" where
  "pushSample wSize x p =
     (let p4 = storeSample wSize x p
      in if hopCounter p4 \<ge> hopSize (config p4) \<and> filled p4 \<ge> wSize
         then processFrame (p4\<lparr> hopCounter := 0 \<rparr>)
         else Some p4)"

fun sampleLoop :: "int \<Rightarrow> number list \<Rightarrow> AudioProcessor \<Rightarrow> AudioProcessor option" where
  "sampleLoop wSize [] p = Some p"
| "sampleLoop wSize (x # xs) p = Option.bind (pushSample wSize x p) (sampleLoop wSize xs)"

definition handleAudioFrame :: "number list \<Rightarrow> AudioProcessor \<Rightarrow> AudioProcessor option" where
  "handleAudioFrame frame p =
     (if \<not> running p then Some p else sampleLoop (windowSize (config p)) frame p)"

section \<open>Invariants and reference definitions\<close>

text \<open>The engine invariant: the cached bit-reversal table fits the cached size.\<close>

definition fft_inv :: "RealFFT \<Rightarrow> bool" where
  "fft_inv f \<longleftrightarrow>
     0 \<le> size_fft f \<and> length (bitRevTable f) = nat (size_fft f)
     \<and> list_all (\<lambda>j. j < nat (size_fft f)) (bitRevTable f)
     \<and> length (real_fft f) = nat (size_fft f) \<and> length (imag_fft f) = nat (size_fft f)"

text \<open>A frame of \<open>2^29 + 1\<close> samples of silence.\<close>

definition long_frame :: "number list" where
  "long_frame = replicate (2 ^ 29 + 1) 0"

text \<open>The configuration invariant of the specification (section 3, Configuration).\<close>

definition config_inv :: "audio_config \<Rightarrow> bool" where
  "config_inv cfg \<longleftrightarrow>
     minHz cfg < maxHz cfg \<and> 0 \<le> minHz cfg
     \<and> (\<exists>m. 5 \<le> m \<and> windowSize cfg = 2 ^ m)
     \<and> 1 \<le> hopSize cfg \<and> hopSize cfg \<le> windowSize cfg"

text \<open>
  The pitch class of bin \<open>k\<close> as the specification gives it (section 4.3):
  \<open>round(69 + 12 * log2((k * sample_rate / (2 * length)) / refPitch)) mod 12\<close>.
\<close>

definition pitch_class_spec :: "nat \<Rightarrow> number \<Rightarrow> number \<Rightarrow> nat \<Rightarrow> int" where
  "pitch_class_spec len rate refPitch k =
     round (69 + 12 * log 2 ((real k * rate / (2 * real len)) / refPitch)) mod 12"

text \<open>The mapper invariant: a cached table is the table of the cached key.\<close>

definition pcc_inv :: "PitchClassComputer \<Rightarrow> bool" where
  "pcc_inv c \<longleftrightarrow>
     (case lookupTable c of
        None \<Rightarrow> True
      | Some t \<Rightarrow> t = buildLookup (prevLength c) (prevSampleRate c) (prevA4 c))
     \<and> length (output_pcd c) = 12 \<and> length (zero_pcd c) = 12"

text \<open>
  The reference definition of the distribution, in the words of the specification:
  the energy of the bins of the band above the threshold, by pitch class; the
  exponent; the normalisation.
\<close>

definition pcd_reference :: "number list \<Rightarrow> number \<Rightarrow> audio_config \<Rightarrow> number list" where
  "pcd_reference mags rate opts =
     (let len = length mags;
          bin_hz = rate / (2 * real len);
          lo = max 1 \<lfloor>minHz opts / bin_hz\<rfloor>;
          hi = min (int len - 1) \<lfloor>maxHz opts / bin_hz\<rfloor>;
          energy = map (\<lambda>c. \<Sum>k = lo..hi.
                      if mags ! nat k > pcdThreshold opts
                         \<and> pitch_class_spec len rate (refA4 opts) (nat k) = int c
                      then (mags ! nat k)\<^sup>2 else 0) [0..<12];
          powered = (if pcdNormalize opts \<noteq> 1
                     then map (\<lambda>x. js_pow x (pcdNormalize opts)) energy else energy);
          total = sum_list powered
      in if total > 0 then map (\<lambda>x. x / total) powered else replicate 12 0)"



text \<open>
  The orchestrator invariant: a window of \<open>2^m\<close> samples with \<open>5 \<le> m \<le> 29\<close>, buffers
  and window table of that length, a write cursor inside the buffer, distributions of
  12 values, and the invariants of the engine and of the mapper.
\<close>

definition processor_inv :: "AudioProcessor \<Rightarrow> bool" where
  "processor_inv p \<longleftrightarrow>
     (\<exists>m. 5 \<le> m \<and> m \<le> 29 \<and> windowSize (config p) = 2 ^ m)
     \<and> length (ringBuffer p) = nat (windowSize (config p))
     \<and> length (analysisBuffer p) = nat (windowSize (config p))
     \<and> length (windowFn p) = nat (windowSize (config p))
     \<and> 0 \<le> writeIndex p \<and> writeIndex p < windowSize (config p)
     \<and> length (currentPcd p) = 12 \<and> length (rawPcd p) = 12
     \<and> fft_inv (fft p) \<and> pcc_inv (pcdComputer p)"

text \<open>The windowed analysis frame of a hop and its RMS, as \<open>processFrame\<close> computes them.\<close>

definition hopFrame :: "AudioProcessor \<Rightarrow> number list" where
  "hopFrame p = applyWindow (windowSize (config p)) (windowFn p) (linearize p)"

definition hopRms :: "AudioProcessor \<Rightarrow> number" where
  "hopRms p = frameRms (hopFrame p)"

text \<open>
  A sequence of hops seen from the distribution stage: each hop brings its RMS and its
  magnitude spectrum. \<open>energeticHops\<close> counts the hops whose raw distribution has
  positive energy.
\<close>

fun runHops :: "(number \<times> number list) list \<Rightarrow> AudioProcessor \<Rightarrow> AudioProcessor" where
  "runHops [] p = p"
| "runHops ((r, mags) # hs) p = runHops hs (pcdStage r mags p)"



text \<open>
  The scenario of section 8 of the specification: window 16384, hop 4096, sample rate
  48000, started; and \<open>n\<close> samples of silence.
\<close>

definition scenario_processor :: AudioProcessor where
  "scenario_processor =
     start_acquired 48000
       (fresh_processor (DEFAULT_AUDIO_CONFIG\<lparr> hopSize := 4096 \<rparr>) DEFAULT_TUNER_CONFIG
          (hannFill 16384 (replicate 16384 0)))"

definition silence :: "nat \<Rightarrow> number list" where
  "silence n = replicate n 0"

text \<open>The analysis events among the dispatched events.\<close>

fun analysisEvents :: "event list \<Rightarrow> analysis_detail list" where
  "analysisEvents [] = []"
| "analysisEvents (Analysis d # es) = d # analysisEvents es"
| "analysisEvents (e # es) = analysisEvents es"

text \<open>
  The number of analysis events dispatched so far after a chunk of samples has been
  handled (\<open>None\<close> when the call does not return).
\<close>

definition analysisCount :: "number list \<Rightarrow> AudioProcessor \<Rightarrow> nat option" where
  "analysisCount frame p =
     map_option (\<lambda>p'. length (analysisEvents (dispatched p'))) (handleAudioFrame frame p)"

section \<open>The FFT engine: termination, length and silence\<close>

lemma wrap32_id: "- (2 ^ 31) \<le> k \<Longrightarrow> k < 2 ^ 31 \<Longrightarrow> wrap32 k = k"
  by (simp add: wrap32_def)

lemma js_shl1_pow: "k < 30 \<Longrightarrow> js_shl (2 ^ k) 1 = 2 ^ Suc k"
proof -
  assume k: "k < 30"
  have "(2::int) ^ Suc k \<le> 2 ^ 30" using k by (intro power_increasing) auto
  then have "(2::int) ^ Suc k < 2 ^ 31" by simp
  moreover have "- (2 ^ 31) \<le> (2::int) ^ Suc k"
  proof -
    have "(0::int) \<le> 2 ^ Suc k" "- (2 ^ 31) \<le> (0::int)" by simp_all
    then show ?thesis by (rule order_trans [rotated])
  qed
  ultimately show ?thesis by (simp add: js_shl_def wrap32_id)
qed

lemma js_shl1_pow30: "js_shl (2 ^ 30) 1 = - (2 ^ 31)"
  by (simp add: js_shl_def wrap32_def)

lemma js_shl1_min: "js_shl (- (2 ^ 31)) 1 = 0"
  by (simp add: js_shl_def wrap32_def)

lemma js_shl1_zero: "js_shl 0 1 = 0"
  by (simp add: js_shl_def wrap32_def)


lemma sizeLoop_zero_aux: "sizeLoop sz n = Some y \<Longrightarrow> \<not> (sz = 0 \<and> 0 < n)"
proof (rule sizeLoop.raw_induct [where P = "\<lambda>sz n y. \<not> (sz = 0 \<and> 0 < n)"], goal_cases)
  case (1 f sz' n' y')
  show ?case
  proof
    assume a: "sz' = 0 \<and> 0 < n'"
    with 1 have "f 0 n' = Some y'" by (simp add: js_shl1_zero)
    with 1 a show False by blast
  qed
qed

lemma sizeLoop_zero_diverges: "0 < n \<Longrightarrow> sizeLoop 0 n = None"
  using sizeLoop_zero_aux [of 0 n] by (cases "sizeLoop 0 n") auto

lemma sizeLoop_pow_step: "k < 30 \<Longrightarrow> 2 ^ k < n \<Longrightarrow> sizeLoop (2 ^ k) n = sizeLoop (2 ^ Suc k) n"
  by (subst sizeLoop.simps) (simp add: js_shl1_pow)

lemma sizeLoop_big_diverges:
  assumes "2 ^ 30 < n" "k \<le> 30"
  shows "sizeLoop (2 ^ k) n = None"
  using assms
proof (induction "30 - k" arbitrary: k)
  case 0
  then have k: "k = 30" by simp
  have n0: "0 < n"
  proof -
    have "(0::int) < 2 ^ 30" by simp
    then show ?thesis using assms(1) by (rule less_trans)
  qed
  have "sizeLoop (2 ^ 30) n = sizeLoop (- (2 ^ 31)) n"
    using assms(1) js_shl1_pow30 by (subst sizeLoop.simps) simp
  also have "\<dots> = sizeLoop 0 n"
    using n0 js_shl1_min by (subst sizeLoop.simps) simp
  finally show ?case using k n0 by (simp add: sizeLoop_zero_diverges)
next
  case (Suc d)
  then have k: "k < 30" by simp
  have "(2::int) ^ k \<le> 2 ^ 30" using k by (intro power_increasing) auto
  then have "2 ^ k < n" using assms(1) by simp
  then have "sizeLoop (2 ^ k) n = sizeLoop (2 ^ Suc k) n" using k by (rule sizeLoop_pow_step[rotated])
  also have "\<dots> = None" using Suc k by (intro Suc(1)) auto
  finally show ?case .
qed

lemma sizeLoop_returns:
  assumes "n \<le> 2 ^ 30" "k \<le> 30" "k = 0 \<or> 2 ^ (k - 1) < n"
  shows "\<exists>m. sizeLoop (2 ^ k) n = Some (2 ^ m) \<and> k \<le> m \<and> m \<le> 30 \<and> n \<le> 2 ^ m
            \<and> (m = 0 \<or> 2 ^ (m - 1) < n)"
  using assms
proof (induction "30 - k" arbitrary: k)
  case 0
  then have k: "k = 30" by simp
  have "sizeLoop (2 ^ 30) n = Some (2 ^ 30)"
    using assms(1) by (subst sizeLoop.simps) simp
  then show ?case using k 0 assms(1) by (intro exI[of _ 30]) simp
next
  case (Suc d)
  then have k: "k < 30" by simp
  show ?case
  proof (cases "2 ^ k < n")
    case True
    have "\<exists>m. sizeLoop (2 ^ Suc k) n = Some (2 ^ m) \<and> Suc k \<le> m \<and> m \<le> 30 \<and> n \<le> 2 ^ m
            \<and> (m = 0 \<or> 2 ^ (m - 1) < n)"
      using Suc.hyps Suc.prems k True by (intro Suc(1)) auto
    then show ?thesis using sizeLoop_pow_step[OF k True] by auto
  next
    case False
    then have "sizeLoop (2 ^ k) n = Some (2 ^ k)" by (subst sizeLoop.simps) simp
    then show ?thesis using False Suc.prems k by (intro exI[of _ k]) auto
  qed
qed

lemma xor_nat_less_pow: "(j::nat) < 2 ^ m \<Longrightarrow> b < 2 ^ m \<Longrightarrow> j XOR b < 2 ^ m"
proof -
  assume a: "j < 2 ^ m" "b < 2 ^ m"
  have "take_bit m (j XOR b) = take_bit m j XOR take_bit m b" by (simp add: take_bit_xor)
  also have "\<dots> = j XOR b" using a by (simp add: take_bit_nat_eq_self)
  finally have "take_bit m (j XOR b) = j XOR b" .
  moreover have "take_bit m (j XOR b) < 2 ^ m" by (rule take_bit_nat_less_exp)
  ultimately show ?thesis by simp
qed

lemma bitRevCarry_bound: "j < 2 ^ m \<Longrightarrow> b < 2 ^ m \<Longrightarrow> bitRevCarry j b < 2 ^ m"
proof (induction j b rule: bitRevCarry.induct)
  case (1 j b)
  show ?case
  proof (cases "j AND b \<noteq> 0")
    case True
    have "b div 2 < 2 ^ m" using 1(3) by (simp add: less_eq_div_iff_mult_less_eq div_le_dividend le_less_trans)
    with True 1 show ?thesis by (subst bitRevCarry.simps) (simp add: xor_nat_less_pow)
  next
    case False
    with 1 show ?thesis by (subst bitRevCarry.simps) (simp add: xor_nat_less_pow)
  qed
qed

lemma bitRevLoop_length: "length (bitRevLoop i sz j tbl) = length tbl"
  by (induction i sz j tbl rule: bitRevLoop.induct) (subst bitRevLoop.simps, simp add: Let_def)

lemma list_all_update: "list_all P xs \<Longrightarrow> P v \<Longrightarrow> list_all P (xs[i := v])"
  by (auto simp: list_all_iff dest: set_update_subset_insert [THEN subsetD])

lemma bitRevLoop_bound:
  "sz = 2 ^ m \<Longrightarrow> j < sz \<Longrightarrow> list_all (\<lambda>x. x < sz) tbl
     \<Longrightarrow> list_all (\<lambda>x. x < sz) (bitRevLoop i sz j tbl)"
proof (induction i sz j tbl rule: bitRevLoop.induct)
  case (1 i sz j tbl)
  show ?case
  proof (cases "i < sz")
    case True
    have half: "sz div 2 < 2 ^ m" using 1(2) by (simp add: div_less_dividend)
    have c: "bitRevCarry j (sz div 2) < sz" using 1(2,3) half by (simp add: bitRevCarry_bound)
    have "list_all (\<lambda>x. x < sz) (bitRevLoop (i + 1) sz (bitRevCarry j (sz div 2))
            (tbl[i := bitRevCarry j (sz div 2)]))"
      using True 1(2,4) c by (intro 1(1)) (auto intro: list_all_update)
    with True show ?thesis by (subst bitRevLoop.simps) (simp add: Let_def)
  next
    case False
    with 1 show ?thesis by (subst bitRevLoop.simps) simp
  qed
qed

lemma ensureSize_inv:
  assumes "fft_inv f"
  shows "fft_inv (ensureSize (2 ^ m) f) \<and> size_fft (ensureSize (2 ^ m) f) = 2 ^ m"
proof (cases "size_fft f = 2 ^ m")
  case True
  with assms show ?thesis by (simp add: ensureSize_def)
next
  case False
  have n: "nat ((2::int) ^ m) = 2 ^ m" by (simp add: nat_power_eq)
  have "list_all (\<lambda>x. x < (2::nat) ^ m) (bitRevLoop 1 (2 ^ m) 0 (replicate (2 ^ m) 0))"
    by (rule bitRevLoop_bound [where m = m]) (simp_all add: list_all_iff)
  with False show ?thesis
    by (simp add: ensureSize_def fft_inv_def bitRevLoop_length n)
qed

lemma bitReverseLoop_length:
  "length (fst (bitReverseLoop i sz tbl st)) = length (fst st)
   \<and> length (snd (bitReverseLoop i sz tbl st)) = length (snd st)"
proof (induction i sz tbl st rule: bitReverseLoop.induct)
  case (1 i sz tbl re im)
  show ?case
  proof (cases "i < sz")
    case True
    with 1 show ?thesis by (subst (1 2) bitReverseLoop.simps) (simp add: Let_def)
  next
    case False
    then show ?thesis by (subst (1 2) bitReverseLoop.simps) simp
  qed
qed

lemma replicate_update_same: "(replicate n x)[i := x] = replicate n x"
  by (induction n arbitrary: i) (auto split: nat.split)

lemma bitReverseLoop_zero:
  "list_all (\<lambda>x. x < n) tbl \<Longrightarrow> sz \<le> length tbl \<Longrightarrow>
   bitReverseLoop i sz tbl (replicate n 0, replicate n 0) = (replicate n 0, replicate n 0)"
proof (induction "sz - i" arbitrary: i)
  case 0
  then show ?case by (subst bitReverseLoop.simps) simp
next
  case (Suc d)
  then have i: "i < sz" by simp
  then have "tbl ! i < n" using Suc.prems by (simp add: list_all_length)
  moreover have "bitReverseLoop (i + 1) sz tbl (replicate n 0, replicate n 0)
                 = (replicate n 0, replicate n 0)"
    using Suc by (intro Suc(1)) auto
  ultimately show ?case using i
    by (subst bitReverseLoop.simps) (simp add: Let_def replicate_update_same)
qed

lemma butterflyLoop_length:
  "length (fst (butterflyLoop k h i w wl st)) = length (fst st)
   \<and> length (snd (butterflyLoop k h i w wl st)) = length (snd st)"
proof (induction k h i w wl st rule: butterflyLoop.induct)
  case (1 k h i wRe wIm wlenRe wlenIm re im)
  show ?case
  proof (cases "k < h")
    case True
    with 1 show ?thesis by (subst (1 2) butterflyLoop.simps) (simp add: Let_def)
  next
    case False
    then show ?thesis by (subst (1 2) butterflyLoop.simps) simp
  qed
qed

lemma butterflyLoop_zero:
  "0 \<le> i \<Longrightarrow> 0 \<le> k \<Longrightarrow> i + 2 * h \<le> int n \<Longrightarrow>
   butterflyLoop k h i w wl (replicate n 0, replicate n 0) = (replicate n 0, replicate n 0)"
proof (induction "nat (h - k)" arbitrary: k w)
  case 0
  obtain wRe wIm where w: "w = (wRe, wIm)" by (cases w)
  obtain wlenRe wlenIm where wl: "wl = (wlenRe, wlenIm)" by (cases wl)
  show ?case using 0 unfolding w wl by (subst butterflyLoop.simps) simp
next
  case (Suc d)
  obtain wRe wIm where w: "w = (wRe, wIm)" by (cases w)
  obtain wlenRe wlenIm where wl: "wl = (wlenRe, wlenIm)" by (cases wl)
  have k: "k < h" using Suc(2) by simp
  have a: "nat (i + k) < n" and b: "nat (i + k + h) < n" using k Suc.prems by auto
  have rec: "butterflyLoop (k + 1) h i w' wl (replicate n 0, replicate n 0)
             = (replicate n 0, replicate n 0)" for w'
    using Suc by (intro Suc(1)) auto
  show ?case
    unfolding w wl
    by (subst butterflyLoop.simps)
       (simp add: k a b Let_def replicate_update_same rec [unfolded wl])
qed

lemma blockLoop_length:
  "0 < len \<Longrightarrow> \<exists>st'. blockLoop i len sz wl st = Some st'
      \<and> length (fst st') = length (fst st) \<and> length (snd st') = length (snd st)"
proof (induction "nat (sz - i)" arbitrary: i st rule: less_induct)
  case less
  show ?case
  proof (cases "i < sz")
    case True
    let ?st1 = "butterflyLoop 0 (js_shr1 len) i (1, 0) wl st"
    have "nat (sz - (i + len)) < nat (sz - i)" using True less.prems by simp
    from less.hyps [OF this less.prems, of ?st1]
    obtain st' where "blockLoop (i + len) len sz wl ?st1 = Some st'"
      "length (fst st') = length (fst ?st1)" "length (snd st') = length (snd ?st1)" by blast
    then show ?thesis using True
      by (subst blockLoop.simps) (simp add: butterflyLoop_length)
  next
    case False
    then show ?thesis by (subst blockLoop.simps) simp
  qed
qed

lemma blockLoop_zero:
  "0 < len \<Longrightarrow> even len \<Longrightarrow> 0 \<le> i \<Longrightarrow> len dvd i \<Longrightarrow> len dvd sz \<Longrightarrow> sz \<le> int n \<Longrightarrow>
   blockLoop i len sz wl (replicate n 0, replicate n 0) = Some (replicate n 0, replicate n 0)"
proof (induction "nat (sz - i)" arbitrary: i rule: less_induct)
  case less
  show ?case
  proof (cases "i < sz")
    case True
    have "len dvd sz - i" using less.prems by (simp add: dvd_diff)
    then have "len \<le> sz - i" using True by (intro zdvd_imp_le) auto
    then have le: "i + len \<le> sz" by simp
    have h: "2 * js_shr1 len = len" using less.prems(2) by (simp add: js_shr1_def)
    have st1: "butterflyLoop 0 (js_shr1 len) i (1, 0) wl (replicate n 0, replicate n 0)
               = (replicate n 0, replicate n 0)"
      using less.prems le h by (intro butterflyLoop_zero) auto
    have "nat (sz - (i + len)) < nat (sz - i)" using True less.prems by simp
    from less.hyps [OF this]
    have "blockLoop (i + len) len sz wl (replicate n 0, replicate n 0)
          = Some (replicate n 0, replicate n 0)"
      using less.prems by (simp add: dvd_add)
    then show ?thesis using True st1 by (subst blockLoop.simps) simp
  next
    case False
    then show ?thesis by (subst blockLoop.simps) simp
  qed
qed

lemma stageLoop_length:
  "m \<le> 29 \<Longrightarrow> j \<le> Suc m \<Longrightarrow> \<exists>st'. stageLoop (2 ^ j) (2 ^ m) st = Some st'
      \<and> length (fst st') = length (fst st) \<and> length (snd st') = length (snd st)"
proof (induction "Suc m - j" arbitrary: j st)
  case 0
  then have "j = Suc m" by simp
  then have "\<not> (2::int) ^ j \<le> 2 ^ m" by simp
  then show ?case by (subst stageLoop.simps) simp
next
  case (Suc d)
  then have j: "j \<le> m" by simp
  then have le: "(2::int) ^ j \<le> 2 ^ m" by (intro power_increasing) auto
  let ?wl = "(cos (- 2 * pi / of_int (2 ^ j)), sin (- 2 * pi / of_int (2 ^ j)))"
  obtain st1 where st1: "blockLoop 0 (2 ^ j) (2 ^ m) ?wl st = Some st1"
    "length (fst st1) = length (fst st)" "length (snd st1) = length (snd st)"
    using blockLoop_length [of "2 ^ j" 0 "2 ^ m" ?wl st] by auto
  have sh: "js_shl (2 ^ j) 1 = 2 ^ Suc j" using j Suc.prems by (intro js_shl1_pow) simp
  obtain st' where "stageLoop (2 ^ Suc j) (2 ^ m) st1 = Some st'"
    "length (fst st') = length (fst st1)" "length (snd st') = length (snd st1)"
    using Suc.hyps(1) [of "Suc j" st1] Suc.hyps(2) Suc.prems j by (auto simp: Suc_diff_le)
  then show ?case using le st1 sh
    by (subst stageLoop.simps) simp
qed

lemma stageLoop_zero:
  "m \<le> 29 \<Longrightarrow> 1 \<le> j \<Longrightarrow> j \<le> Suc m \<Longrightarrow> n = 2 ^ m \<Longrightarrow>
   stageLoop (2 ^ j) (2 ^ m) (replicate n 0, replicate n 0) = Some (replicate n 0, replicate n 0)"
proof (induction "Suc m - j" arbitrary: j)
  case 0
  then have "j = Suc m" by simp
  then have "\<not> (2::int) ^ j \<le> 2 ^ m" by simp
  then show ?case by (subst stageLoop.simps) simp
next
  case (Suc d)
  then have j: "j \<le> m" by simp
  then have le: "(2::int) ^ j \<le> 2 ^ m" by (intro power_increasing) auto
  let ?wl = "(cos (- 2 * pi / of_int (2 ^ j)), sin (- 2 * pi / of_int (2 ^ j)))"
  have dv: "(2::int) ^ j dvd 2 ^ m" using j by (simp add: le_imp_power_dvd)
  have ev: "even ((2::int) ^ j)" using Suc.prems by simp
  have st1: "blockLoop 0 (2 ^ j) (2 ^ m) ?wl (replicate n 0, replicate n 0)
             = Some (replicate n 0, replicate n 0)"
    using dv ev Suc.prems by (intro blockLoop_zero) auto
  have sh: "js_shl (2 ^ j) 1 = 2 ^ Suc j" using j Suc.prems by (intro js_shl1_pow) simp
  have "stageLoop (2 ^ Suc j) (2 ^ m) (replicate n 0, replicate n 0)
        = Some (replicate n 0, replicate n 0)"
    using Suc.hyps(2) Suc.prems j by (intro Suc.hyps(1)) auto
  then show ?case using le st1 sh
    by (subst stageLoop.simps) simp
qed

lemma blockLoop_neg_aux:
  "blockLoop i len sz wl st = Some y \<Longrightarrow> \<not> (len \<le> 0 \<and> i < sz)"
proof (rule blockLoop.raw_induct [where P = "\<lambda>i len sz wl st y. \<not> (len \<le> 0 \<and> i < sz)"], goal_cases)
  case (1 f i' len' sz' wl' st' y')
  show ?case
  proof
    assume a: "len' \<le> 0 \<and> i' < sz'"
    with 1 have "f (i' + len') len' sz' wl' (butterflyLoop 0 (js_shr1 len') i' (1, 0) wl' st') = Some y'"
      by simp
    moreover have "i' + len' < sz'" using a by linarith
    ultimately show False using 1 a by blast
  qed
qed

lemma blockLoop_diverges: "len \<le> 0 \<Longrightarrow> i < sz \<Longrightarrow> blockLoop i len sz wl st = None"
  using blockLoop_neg_aux [of i len sz wl st] by (cases "blockLoop i len sz wl st") auto

lemma stageLoop_diverges:
  "m = 30 \<Longrightarrow> j \<le> m \<Longrightarrow> stageLoop (2 ^ j) (2 ^ m) st = None"
proof (induction "m - j" arbitrary: j st)
  case 0
  then have j: "j = m" by simp
  let ?wl = "\<lambda>l::int. (cos (- 2 * pi / of_int l), sin (- 2 * pi / of_int l))"
  obtain st1 where st1: "blockLoop 0 (2 ^ m) (2 ^ m) (?wl (2 ^ m)) st = Some st1"
    using blockLoop_length [of "2 ^ m" 0 "2 ^ m" "?wl (2 ^ m)" st] by auto
  have sh: "js_shl (2 ^ m) 1 = - (2 ^ 31)" using 0(2) js_shl1_pow30 by simp
  have "(0::int) \<le> 2 ^ m" "- (2 ^ 31) \<le> (0::int)" by simp_all
  then have neg: "- (2 ^ 31) \<le> (2::int) ^ m" by (rule order_trans [rotated])
  have "blockLoop 0 (- (2 ^ 31)) (2 ^ m) (?wl (- (2 ^ 31))) st1 = None"
    by (rule blockLoop_diverges) simp_all
  then have "stageLoop (- (2 ^ 31)) (2 ^ m) st1 = None"
    using neg by (subst stageLoop.simps) simp
  then show ?case unfolding j using st1 sh by (subst stageLoop.simps) simp
next
  case (Suc d)
  then have j: "j < m" by simp
  then have le: "(2::int) ^ j \<le> 2 ^ m" by (intro power_increasing) auto
  let ?wl = "(cos (- 2 * pi / of_int (2 ^ j)), sin (- 2 * pi / of_int (2 ^ j)))"
  obtain st1 where st1: "blockLoop 0 (2 ^ j) (2 ^ m) ?wl st = Some st1"
    using blockLoop_length [of "2 ^ j" 0 "2 ^ m" ?wl st] by auto
  have sh: "js_shl (2 ^ j) 1 = 2 ^ Suc j" using j Suc.prems by (intro js_shl1_pow) simp
  have "stageLoop (2 ^ Suc j) (2 ^ m) st1 = None"
    using Suc.hyps(2) Suc.prems j by (intro Suc.hyps(1)) auto
  then show ?case using le st1 sh by (subst stageLoop.simps) simp
qed

lemma least_power:
  assumes "m = 0 \<or> 2 ^ (m - 1) < (n::int)" "n \<le> 2 ^ m'"
  shows "m \<le> m'"
proof (rule ccontr)
  assume "\<not> m \<le> m'"
  then have "m' \<le> m - 1" "m \<noteq> 0" by auto
  then have p: "(2::int) ^ m' \<le> 2 ^ (m - 1)" by (intro power_increasing) auto
  have "2 ^ (m - 1) < n" using assms(1) \<open>m \<noteq> 0\<close> by simp
  with p assms(2) show False by linarith
qed

lemma hypot_zero: "hypot 0 0 = 0"
  by (simp add: hypot_def)

lemma typed_set_zero:
  "l \<le> n \<Longrightarrow> typed_set (replicate n 0) (replicate l (0::real)) 0 = replicate n 0"
  by (simp add: typed_set_def replicate_add [symmetric])

lemma typed_set_length:
  "off + length src \<le> length dst \<Longrightarrow> length (typed_set dst src off) = length dst"
  by (simp add: typed_set_def)

lemma transform_returns:
  assumes inv: "fft_inv f" and len: "length signal \<le> 2 ^ 29"
  shows "\<exists>m mags f'. transform signal f = Some (mags, f') \<and> fft_inv f' \<and> m \<le> 29
           \<and> length signal \<le> 2 ^ m \<and> (m = 0 \<or> 2 ^ (m - 1) < length signal)
           \<and> length mags = 2 ^ m div 2
           \<and> (signal = replicate (length signal) 0 \<longrightarrow> mags = replicate (2 ^ m div 2) 0)"
proof -
  let ?n = "int (length signal)"
  have n30: "?n \<le> 2 ^ 30"
  proof -
    have "?n \<le> 2 ^ 29" using len by simp
    also have "\<dots> \<le> (2::int) ^ 30" by simp
    finally show ?thesis .
  qed
  obtain m where m: "sizeLoop (2 ^ 0) ?n = Some (2 ^ m)" "m \<le> 30" "?n \<le> 2 ^ m"
      "m = 0 \<or> 2 ^ (m - 1) < ?n"
    using sizeLoop_returns [of ?n 0] n30 by auto
  have m29: "m \<le> 29"
  proof (rule least_power [OF m(4)])
    show "?n \<le> 2 ^ 29" using len by simp
  qed
  have natsz: "nat ((2::int) ^ m) = 2 ^ m" by (simp add: nat_power_eq)
  have lenm: "length signal \<le> 2 ^ m"
    using m(3) by simp
  have low: "m = 0 \<or> 2 ^ (m - 1) < length signal"
    using m(4) by simp
  let ?f1 = "ensureSize (2 ^ m) f"
  have f1: "fft_inv ?f1" "size_fft ?f1 = 2 ^ m" using ensureSize_inv [OF inv, of m] by auto
  then have lens: "length (real_fft ?f1) = 2 ^ m" "length (imag_fft ?f1) = 2 ^ m"
      "length (bitRevTable ?f1) = 2 ^ m" "list_all (\<lambda>j. j < 2 ^ m) (bitRevTable ?f1)"
    using natsz by (simp_all add: fft_inv_def)
  let ?re0 = "typed_set (replicate (length (real_fft ?f1)) 0) signal 0"
  let ?im0 = "replicate (length (imag_fft ?f1)) (0::real)"
  let ?st1 = "bitReverseLoop 1 (nat (2 ^ m)) (bitRevTable ?f1) (?re0, ?im0)"
  have st1len: "length (fst ?st1) = 2 ^ m" "length (snd ?st1) = 2 ^ m"
    using bitReverseLoop_length [of 1 "nat (2 ^ m)" "bitRevTable ?f1" "(?re0, ?im0)"] lens lenm
    by (simp_all add: typed_set_length)
  obtain st2 where st2: "stageLoop (2 ^ 1) (2 ^ m) ?st1 = Some st2"
      "length (fst st2) = length (fst ?st1)" "length (snd st2) = length (snd ?st1)"
    using stageLoop_length [OF m29, of 1 ?st1] by auto
  obtain re2 im2 where ri: "st2 = (re2, im2)" by (cases st2)
  let ?mags = "map (\<lambda>i. hypot (re2 ! i) (im2 ! i)) [0..<nat (js_shr1 (2 ^ m))]"
  let ?f' = "?f1\<lparr> real_fft := re2, imag_fft := im2, magnitudes_fft := ?mags \<rparr>"
  have half: "nat (js_shr1 (2 ^ m)) = 2 ^ m div 2"
    by (simp add: js_shr1_def nat_div_distrib natsz)
  have tr: "transform signal f = Some (?mags, ?f')"
    using m(1) st2(1) ri by (simp add: transform_def Let_def)
  have inv': "fft_inv ?f'"
    using f1 st2 st1len ri by (simp add: fft_inv_def natsz)
  have zero: "?mags = replicate (2 ^ m div 2) 0" if z: "signal = replicate (length signal) 0"
  proof -
    have re0: "?re0 = replicate (2 ^ m) 0"
      using lens lenm by (subst z) (simp add: typed_set_zero)
    have stz: "?st1 = (replicate (2 ^ m) 0, replicate (2 ^ m) 0)"
      unfolding re0 using lens natsz by (simp add: bitReverseLoop_zero)
    have "stageLoop (2 ^ 1) (2 ^ m) (replicate (2 ^ m) 0, replicate (2 ^ m) 0)
                   = Some (replicate (2 ^ m) 0, replicate (2 ^ m) 0)"
      using m29 by (intro stageLoop_zero) auto
    then have "Some st2 = Some (replicate (2 ^ m) 0, replicate (2 ^ m) 0)"
      unfolding st2(1) [symmetric] stz by simp
    then have "re2 = replicate (2 ^ m) 0" "im2 = replicate (2 ^ m) 0"
      unfolding ri by simp_all
    then show ?thesis
      unfolding half by (simp add: list_eq_iff_nth_eq hypot_zero)
  qed
  show ?thesis
    using tr inv' m29 lenm low half zero by (intro exI [of _ m] exI [of _ ?mags] exI [of _ ?f']) simp
qed

lemma new_RealFFT_inv: "fft_inv new_RealFFT"
  by (simp add: fft_inv_def new_RealFFT_def)

lemma long_frame_length: "int (length long_frame) = 2 ^ 29 + 1"
  unfolding long_frame_def length_replicate by simp

lemma list_all_zero_replicate: "list_all (\<lambda>x. x = (0::real)) xs \<longleftrightarrow> xs = replicate (length xs) 0"
  by (induction xs) auto

text \<open>
  Frames of up to \<open>2^29\<close> samples. For an engine in a reachable state and a frame of
  \<open>L\<close> samples with \<open>0 < L \<le> 2^29\<close>, \<open>transform\<close> returns, the magnitude buffer it
  returns has \<open>N div 2\<close> entries for the least power of two \<open>N = 2^m \<ge> L\<close>, and a frame
  of zeros gives magnitudes that are all zero. On these frames the 32-bit shifts of the
  size and stage loops do not wrap.
\<close>

theorem transform_magnitudes:
  assumes "fft_inv f" "0 < length signal" "length signal \<le> 2 ^ 29"
  shows "\<exists>mags f' m. transform signal f = Some (mags, f')
           \<and> length signal \<le> 2 ^ m \<and> (\<forall>m'. length signal \<le> 2 ^ m' \<longrightarrow> m \<le> m')
           \<and> length mags = 2 ^ m div 2 \<and> fft_inv f'
           \<and> (list_all (\<lambda>x. x = 0) signal \<longrightarrow> list_all (\<lambda>x. x = 0) mags)"
proof -
  obtain m mags f' where r: "transform signal f = Some (mags, f')" "fft_inv f'"
      "length signal \<le> 2 ^ m" "m = 0 \<or> 2 ^ (m - 1) < length signal"
      "length mags = 2 ^ m div 2"
      "signal = replicate (length signal) 0 \<longrightarrow> mags = replicate (2 ^ m div 2) 0"
    using transform_returns [OF assms(1,3)] by blast
  have least: "m \<le> m'" if "length signal \<le> 2 ^ m'" for m'
  proof (rule least_power [of m "int (length signal)" m'])
    show "m = 0 \<or> 2 ^ (m - 1) < int (length signal)" using r(4) by simp
    show "int (length signal) \<le> 2 ^ m'" using that by simp
  qed
  have zero: "list_all (\<lambda>x. x = 0) mags" if "list_all (\<lambda>x. x = 0) signal"
  proof -
    have "mags = replicate (2 ^ m div 2) 0" using that r(6) by (simp add: list_all_zero_replicate)
    then show ?thesis using r(5) by (simp add: list_all_zero_replicate)
  qed
  show ?thesis
    using r(1,2,3,5) least zero by blast
qed

theorem transform_magnitudes_witness:
  "\<exists>mags f'. transform [0, 0, 0] new_RealFFT = Some (mags, f') \<and> mags = [0, 0]"
proof -
  obtain mags f' m where r: "transform [0, 0, 0] new_RealFFT = Some (mags, f')"
      "length [0::real, 0, 0] \<le> 2 ^ m" "\<forall>m'. length [0::real, 0, 0] \<le> 2 ^ m' \<longrightarrow> m \<le> m'"
      "length mags = 2 ^ m div 2" "list_all (\<lambda>x. x = 0) [0::real, 0, 0] \<longrightarrow> list_all (\<lambda>x. x = 0) mags"
    using transform_magnitudes [of new_RealFFT "[0, 0, 0]"] new_RealFFT_inv by auto
  have "m \<le> 2" using r(3) by (auto dest: spec [of _ 2])
  moreover have "m \<noteq> 0" "m \<noteq> 1"
  proof -
    show "m \<noteq> 0" using r(2) by (cases "m = 0") simp_all
    show "m \<noteq> 1" using r(2) by (cases "m = 1") simp_all
  qed
  ultimately have "m = 2" by simp
  then have "length mags = 2" "list_all (\<lambda>x. x = 0) mags" using r(4,5) by simp_all
  then have "mags = [0, 0]" by (simp add: list_all_zero_replicate numeral_2_eq_2)
  with r(1) show ?thesis by simp
qed

text \<open>
  Claim C6 (every frame of positive length is transformed): the code does not meet it.
  A frame of \<open>2^29 + 1\<close> samples has positive length, and on a new engine \<open>transform\<close>
  does not return for it. The size loop stops at \<open>2^30\<close>; the stage loop then shifts
  \<open>len = 2^30\<close> to \<open>-2^31\<close> in 32-bit arithmetic, which is still \<open>\<le> size\<close>, and the
  block loop for a negative \<open>len\<close> never ends.
\<close>

theorem transform_long_frame_diverges:
  "fft_inv new_RealFFT \<and> 0 < length long_frame \<and> transform long_frame new_RealFFT = None"
proof -
  have pos: "0 < length long_frame" using long_frame_length by (cases "length long_frame") auto
  have "transform long_frame new_RealFFT = None"
  proof -
  let ?n = "int (length long_frame)"
  have n: "?n = 2 ^ 29 + 1" by (rule long_frame_length)
  have "?n \<le> 2 ^ 30" unfolding n by simp
  then obtain m where m: "sizeLoop (2 ^ 0) ?n = Some (2 ^ m)" "m \<le> 30" "?n \<le> 2 ^ m"
    using sizeLoop_returns [of ?n 0] by auto
  have "m = 30"
  proof (rule ccontr)
    assume "m \<noteq> 30"
    then have "m \<le> 29" using m(2) by simp
    then have "(2::int) ^ m \<le> 2 ^ 29" by (intro power_increasing) auto
    with m(3) show False unfolding n by linarith
  qed
  then have "stageLoop (2 ^ 1) (2 ^ m) st = None" for st
    by (intro stageLoop_diverges) auto
  then show ?thesis using m(1) by (simp add: transform_def Let_def)
  qed
  with pos new_RealFFT_inv show ?thesis by simp
qed

section \<open>Tuner configuration updates\<close>

lemma assign_simps [simp]: "assign (Some v) old = v" "assign None old = old"
  by (simp_all add: assign_def)

text \<open>
  C9, as amended. \<open>updateTuner\<close> merges and does not validate: a field that the update
  supplies is stored and read back exactly as supplied, whatever its value, a field that
  the update does not supply keeps its value, and the audio configuration is untouched.
  The stored reactivity is therefore in \<open>[0.05, 1]\<close> exactly when the supplied one is.
\<close>

theorem updateTuner_stores_verbatim:
  "(upd_reactivity u = Some r \<longrightarrow> reactivity (tunerConfig (updateTuner u p)) = r)
   \<and> (upd_reactivity u = None \<longrightarrow>
        reactivity (tunerConfig (updateTuner u p)) = reactivity (tunerConfig p))
   \<and> (upd_minRMS u = Some a \<longrightarrow> minRMS (tunerConfig (updateTuner u p)) = a)
   \<and> (upd_minRMS u = None \<longrightarrow> minRMS (tunerConfig (updateTuner u p)) = minRMS (tunerConfig p))
   \<and> (upd_minProminence u = Some b \<longrightarrow> minProminence (tunerConfig (updateTuner u p)) = b)
   \<and> (upd_minProminence u = None \<longrightarrow>
        minProminence (tunerConfig (updateTuner u p)) = minProminence (tunerConfig p))
   \<and> (upd_minHz_tuner u = Some lo \<longrightarrow> minHz_tuner (tunerConfig (updateTuner u p)) = lo)
   \<and> (upd_minHz_tuner u = None \<longrightarrow>
        minHz_tuner (tunerConfig (updateTuner u p)) = minHz_tuner (tunerConfig p))
   \<and> (upd_maxHz_tuner u = Some hi \<longrightarrow> maxHz_tuner (tunerConfig (updateTuner u p)) = hi)
   \<and> (upd_maxHz_tuner u = None \<longrightarrow>
        maxHz_tuner (tunerConfig (updateTuner u p)) = maxHz_tuner (tunerConfig p))
   \<and> (upd_enabled u = Some e \<longrightarrow> enabled (tunerConfig (updateTuner u p)) = e)
   \<and> (upd_enabled u = None \<longrightarrow>
        enabled (tunerConfig (updateTuner u p)) = enabled (tunerConfig p))
   \<and> config (updateTuner u p) = config p"
  by (simp add: updateTuner_def Let_def)

theorem updateTuner_stores_verbatim_witness:
  "reactivity (tunerConfig (updateTuner (no_tuner_updates\<lparr> upd_reactivity := Some (1 / 2) \<rparr>)
      default_processor)) = 1 / 2
   \<and> minRMS (tunerConfig (updateTuner (no_tuner_updates\<lparr> upd_reactivity := Some (1 / 2) \<rparr>)
      default_processor)) = 3 / 1000"
  using updateTuner_stores_verbatim
    [of "no_tuner_updates\<lparr> upd_reactivity := Some (1 / 2) \<rparr>" "1 / 2" default_processor]
  by (simp add: no_tuner_updates_def default_processor_def fresh_processor_def
        DEFAULT_TUNER_CONFIG_def)

text \<open>
  C9 as stated fails: \<open>updateTuner({reactivity: 5})\<close> on the default orchestrator stores
  the reactivity 5, which is outside \<open>[0.05, 1]\<close>.
\<close>

theorem updateTuner_does_not_clamp:
  "reactivity (tunerConfig (updateTuner (no_tuner_updates\<lparr> upd_reactivity := Some 5 \<rparr>)
      default_processor)) = 5
   \<and> \<not> (5 / 100 \<le> reactivity (tunerConfig (updateTuner
          (no_tuner_updates\<lparr> upd_reactivity := Some 5 \<rparr>) default_processor))
        \<and> reactivity (tunerConfig (updateTuner
          (no_tuner_updates\<lparr> upd_reactivity := Some 5 \<rparr>) default_processor)) \<le> 1)"
  by (simp add: updateTuner_def no_tuner_updates_def Let_def)

section \<open>Configuration updates: the window size and the invariant\<close>

lemma wrap32_range: "- (2 ^ 31) \<le> wrap32 k \<and> wrap32 k < 2 ^ 31"
proof -
  have "0 \<le> (k + 2 ^ 31) mod 2 ^ 32" "(k + 2 ^ 31) mod 2 ^ 32 < (2 ^ 32 :: int)"
    by simp_all
  then show ?thesis unfolding wrap32_def by simp
qed

lemma round_log2_bounds:
  assumes "32 \<le> c" "c < 2 ^ 31"
  shows "5 \<le> round (log 2 (of_int c)) \<and> round (log 2 (of_int c)) \<le> 31"
proof -
  have c: "(0::real) < of_int c" using assms by simp
  have lo: "5 \<le> log 2 (of_int c)"
    using c assms(1) by (subst le_log_iff) simp_all
  have hi: "log 2 (of_int c) < 31"
    using c assms(2) by (subst log_less_iff) simp_all
  have "round (5::real) \<le> round (log 2 (of_int c))" using lo by (rule round_mono)
  moreover have "round (log 2 (of_int c)) \<le> round (31::real)" using hi by (intro round_mono) simp
  ultimately show ?thesis by simp
qed

lemma js_shl_one:
  assumes "5 \<le> e" "e \<le> 31"
  shows "js_shl 1 e = (if e \<le> 30 then 2 ^ nat e else - (2 ^ 31))"
proof (cases "e \<le> 30")
  case True
  have e: "e mod 32 = e" using assms by simp
  have "(2::int) ^ nat e \<le> 2 ^ 30" using True assms by (intro power_increasing) auto
  then have "(2::int) ^ nat e < 2 ^ 31" by simp
  moreover have "- (2 ^ 31) \<le> (2::int) ^ nat e"
  proof -
    have "(0::int) \<le> 2 ^ nat e" "- (2 ^ 31) \<le> (0::int)" by simp_all
    then show ?thesis by (rule order_trans [rotated])
  qed
  ultimately show ?thesis using True by (simp add: js_shl_def e wrap32_id)
next
  case False
  then have "e = 31" using assms by simp
  then show ?thesis by (simp add: js_shl_def wrap32_def)
qed

lemma toPowerOfTwo_cases:
  "(\<exists>m. 5 \<le> m \<and> m \<le> 30 \<and> toPowerOfTwo v = 2 ^ m) \<or> toPowerOfTwo v = - (2 ^ 31)"
proof -
  let ?c = "max 32 (js_ToInt32 v)"
  let ?e = "max 5 (round (log 2 (of_int ?c)))"
  have "?c < 2 ^ 31" using wrap32_range [of "if 0 \<le> v then \<lfloor>v\<rfloor> else \<lceil>v\<rceil>"]
    by (simp add: js_ToInt32_def)
  then have e: "5 \<le> ?e" "?e \<le> 31" using round_log2_bounds [of ?c] by simp_all
  have t: "toPowerOfTwo v = js_shl 1 ?e" by (simp add: toPowerOfTwo_def Let_def)
  show ?thesis
  proof (cases "?e \<le> 30")
    case True
    then have "toPowerOfTwo v = 2 ^ nat ?e" using js_shl_one [OF e] t by simp
    moreover have "5 \<le> nat ?e" "nat ?e \<le> 30" using e True by simp_all
    ultimately show ?thesis by blast
  next
    case False
    then show ?thesis using js_shl_one [OF e] t by simp
  qed
qed

lemma toPowerOfTwo_nonneg:
  "0 \<le> toPowerOfTwo v \<Longrightarrow> \<exists>m. 5 \<le> m \<and> m \<le> 30 \<and> toPowerOfTwo v = 2 ^ m"
  using toPowerOfTwo_cases [of v] by auto

lemma hannWindow_Inr: "0 \<le> sz \<Longrightarrow> hannWindow sz = Inr (hannFill sz (replicate (nat sz) 0))"
  by (simp add: hannWindow_def new_Float32Array_def)

lemma hannWindow_Inl: "sz < 0 \<Longrightarrow> hannWindow sz = Inl RangeError"
  by (simp add: hannWindow_def new_Float32Array_def)

lemma hannFill_length [simp]: "length (hannFill sz w) = length w"
  by (simp add: hannFill_def)

lemma log2_2e9: "61 / 2 \<le> log 2 2000000000 \<and> log 2 2000000000 < 31"
proof
  have "sqrt 2 \<le> 3 / 2" by (rule real_le_lsqrt) (simp_all add: power2_eq_square)
  have "(2::real) powr (61 / 2) = 2 powr (30 + 1 / 2)" by simp
  also have "\<dots> = 2 powr 30 * 2 powr (1 / 2)" by (rule powr_add)
  also have "\<dots> = 2 ^ 30 * sqrt 2" by (simp add: powr_half_sqrt)
  also have "\<dots> \<le> 2 ^ 30 * (3 / 2)" using \<open>sqrt 2 \<le> 3 / 2\<close> by (intro mult_left_mono) simp_all
  also have "\<dots> \<le> 2000000000" by simp
  finally show "61 / 2 \<le> log 2 2000000000" by (subst le_log_iff) simp_all
  show "log 2 2000000000 < 31" by (subst log_less_iff) simp_all
qed

lemma round_log2_2e9: "round (log 2 2000000000) = 31"
  using log2_2e9 by (intro round_unique) simp_all

lemma toPowerOfTwo_2e9: "toPowerOfTwo 2000000000 = - 2147483648"
proof -
  have "js_ToInt32 2000000000 = 2000000000" by (simp add: js_ToInt32_def wrap32_def)
  then show ?thesis
    using round_log2_2e9 by (simp add: toPowerOfTwo_def js_shl_def wrap32_def)
qed

lemma applyHopSize_simps [simp]:
  "windowSize (applyHopSize h cfg) = windowSize cfg" "minHz (applyHopSize h cfg) = minHz cfg"
  "maxHz (applyHopSize h cfg) = maxHz cfg" "smoothing (applyHopSize h cfg) = smoothing cfg"
  "pcdMinRms (applyHopSize h cfg) = pcdMinRms cfg"
  "pcdThreshold (applyHopSize h cfg) = pcdThreshold cfg"
  "pcdNormalize (applyHopSize h cfg) = pcdNormalize cfg" "refA4 (applyHopSize h cfg) = refA4 cfg"
  by (cases h; simp add: applyHopSize_def)+

lemma applyMinHz_simps [simp]:
  "windowSize (applyMinHz h cfg) = windowSize cfg" "hopSize (applyMinHz h cfg) = hopSize cfg"
  "maxHz (applyMinHz h cfg) = maxHz cfg" "smoothing (applyMinHz h cfg) = smoothing cfg"
  "pcdMinRms (applyMinHz h cfg) = pcdMinRms cfg"
  "pcdThreshold (applyMinHz h cfg) = pcdThreshold cfg"
  "pcdNormalize (applyMinHz h cfg) = pcdNormalize cfg" "refA4 (applyMinHz h cfg) = refA4 cfg"
  by (cases h; simp add: applyMinHz_def)+

lemma applyMaxHz_simps [simp]:
  "windowSize (applyMaxHz h cfg) = windowSize cfg" "hopSize (applyMaxHz h cfg) = hopSize cfg"
  "minHz (applyMaxHz h cfg) = minHz cfg" "smoothing (applyMaxHz h cfg) = smoothing cfg"
  "pcdMinRms (applyMaxHz h cfg) = pcdMinRms cfg"
  "pcdThreshold (applyMaxHz h cfg) = pcdThreshold cfg"
  "pcdNormalize (applyMaxHz h cfg) = pcdNormalize cfg" "refA4 (applyMaxHz h cfg) = refA4 cfg"
  by (cases h; simp add: applyMaxHz_def)+

lemma fixBand_simps [simp]:
  "windowSize (fixBand cfg) = windowSize cfg" "hopSize (fixBand cfg) = hopSize cfg"
  "minHz (fixBand cfg) = minHz cfg" "smoothing (fixBand cfg) = smoothing cfg"
  "pcdMinRms (fixBand cfg) = pcdMinRms cfg" "pcdThreshold (fixBand cfg) = pcdThreshold cfg"
  "pcdNormalize (fixBand cfg) = pcdNormalize cfg" "refA4 (fixBand cfg) = refA4 cfg"
  by (simp_all add: fixBand_def)

lemma applySmoothing_simps [simp]:
  "windowSize (applySmoothing h cfg) = windowSize cfg"
  "hopSize (applySmoothing h cfg) = hopSize cfg"
  "minHz (applySmoothing h cfg) = minHz cfg" "maxHz (applySmoothing h cfg) = maxHz cfg"
  "pcdMinRms (applySmoothing h cfg) = pcdMinRms cfg"
  "pcdThreshold (applySmoothing h cfg) = pcdThreshold cfg"
  "pcdNormalize (applySmoothing h cfg) = pcdNormalize cfg"
  "refA4 (applySmoothing h cfg) = refA4 cfg"
  by (cases h; simp add: applySmoothing_def)+

lemma applyPcdMinRms_simps [simp]:
  "windowSize (applyPcdMinRms h cfg) = windowSize cfg"
  "hopSize (applyPcdMinRms h cfg) = hopSize cfg"
  "minHz (applyPcdMinRms h cfg) = minHz cfg" "maxHz (applyPcdMinRms h cfg) = maxHz cfg"
  "smoothing (applyPcdMinRms h cfg) = smoothing cfg"
  "pcdThreshold (applyPcdMinRms h cfg) = pcdThreshold cfg"
  "pcdNormalize (applyPcdMinRms h cfg) = pcdNormalize cfg"
  "refA4 (applyPcdMinRms h cfg) = refA4 cfg"
  by (cases h; simp add: applyPcdMinRms_def)+

lemma applyPcdThreshold_simps [simp]:
  "windowSize (applyPcdThreshold h cfg) = windowSize cfg"
  "hopSize (applyPcdThreshold h cfg) = hopSize cfg"
  "minHz (applyPcdThreshold h cfg) = minHz cfg" "maxHz (applyPcdThreshold h cfg) = maxHz cfg"
  "smoothing (applyPcdThreshold h cfg) = smoothing cfg"
  "pcdMinRms (applyPcdThreshold h cfg) = pcdMinRms cfg"
  "pcdNormalize (applyPcdThreshold h cfg) = pcdNormalize cfg"
  "refA4 (applyPcdThreshold h cfg) = refA4 cfg"
  by (cases h; simp add: applyPcdThreshold_def)+

lemma applyPcdNormalize_simps [simp]:
  "windowSize (applyPcdNormalize h cfg) = windowSize cfg"
  "hopSize (applyPcdNormalize h cfg) = hopSize cfg"
  "minHz (applyPcdNormalize h cfg) = minHz cfg" "maxHz (applyPcdNormalize h cfg) = maxHz cfg"
  "smoothing (applyPcdNormalize h cfg) = smoothing cfg"
  "pcdMinRms (applyPcdNormalize h cfg) = pcdMinRms cfg"
  "pcdThreshold (applyPcdNormalize h cfg) = pcdThreshold cfg"
  "refA4 (applyPcdNormalize h cfg) = refA4 cfg"
  by (cases h; simp add: applyPcdNormalize_def)+

lemma applyRefA4_simps [simp]:
  "windowSize (applyRefA4 h cfg) = windowSize cfg" "hopSize (applyRefA4 h cfg) = hopSize cfg"
  "minHz (applyRefA4 h cfg) = minHz cfg" "maxHz (applyRefA4 h cfg) = maxHz cfg"
  "smoothing (applyRefA4 h cfg) = smoothing cfg" "pcdMinRms (applyRefA4 h cfg) = pcdMinRms cfg"
  "pcdThreshold (applyRefA4 h cfg) = pcdThreshold cfg"
  "pcdNormalize (applyRefA4 h cfg) = pcdNormalize cfg"
  by (cases h; simp add: applyRefA4_def)+

lemma apply_None [simp]:
  "applyHopSize None cfg = cfg" "applyMinHz None cfg = cfg" "applyMaxHz None cfg = cfg"
  "applySmoothing None cfg = cfg" "applyPcdMinRms None cfg = cfg"
  "applyPcdThreshold None cfg = cfg" "applyPcdNormalize None cfg = cfg"
  "applyRefA4 None cfg = cfg"
  by (simp_all add: applyHopSize_def applyMinHz_def applyMaxHz_def applySmoothing_def
      applyPcdMinRms_def applyPcdThreshold_def applyPcdNormalize_def applyRefA4_def)

lemma updateFields_windowSize [simp]: "windowSize (updateFields u cfg) = windowSize cfg"
  by (simp add: updateFields_def)

lemma updateFields_hopSize: "1 \<le> hopSize cfg \<Longrightarrow> 1 \<le> hopSize (updateFields u cfg)"
  by (cases "upd_hopSize u") (simp_all add: updateFields_def applyHopSize_def)

lemma updateFields_minHz: "0 \<le> minHz cfg \<Longrightarrow> 0 \<le> minHz (updateFields u cfg)"
  by (cases "upd_minHz u") (simp_all add: updateFields_def applyMinHz_def)

lemma fixBand_band: "minHz (fixBand cfg) < maxHz (fixBand cfg)"
  by (simp add: fixBand_def)

lemma updateFields_band: "minHz (updateFields u cfg) < maxHz (updateFields u cfg)"
  using fixBand_band
    [of "applyMaxHz (upd_maxHz u) (applyMinHz (upd_minHz u) (applyHopSize (upd_hopSize u) cfg))"]
  by (simp add: updateFields_def)

lemma updateFields_smoothing:
  "0 \<le> smoothing cfg \<and> smoothing cfg \<le> 999 / 1000 \<Longrightarrow>
   0 \<le> smoothing (updateFields u cfg) \<and> smoothing (updateFields u cfg) \<le> 999 / 1000"
  by (cases "upd_smoothing u") (simp_all add: updateFields_def applySmoothing_def clamp_def)




lemma updateWindow_cases:
  "updateWindow w p = Inr (False, p)
   \<or> (\<exists>v. w = Some v \<and> toPowerOfTwo v \<noteq> windowSize (config p) \<and> 0 \<le> toPowerOfTwo v
        \<and> updateWindow w p =
            Inr (True, p\<lparr> config := (config p)\<lparr> windowSize := toPowerOfTwo v \<rparr>,
                          windowFn := hannFill (toPowerOfTwo v) (replicate (nat (toPowerOfTwo v)) 0),
                          ringBuffer := replicate (nat (toPowerOfTwo v)) 0,
                          analysisBuffer := replicate (nat (toPowerOfTwo v)) 0 \<rparr>))
   \<or> (\<exists>v. w = Some v \<and> toPowerOfTwo v < 0
        \<and> updateWindow w p =
            Inl (RangeError, p\<lparr> config := (config p)\<lparr> windowSize := toPowerOfTwo v \<rparr> \<rparr>))"
proof (cases w)
  case None
  then show ?thesis by (simp add: updateWindow_def)
next
  case (Some v)
  show ?thesis
  proof (cases "0 \<le> toPowerOfTwo v")
    case True
    then show ?thesis using Some
      by (simp add: updateWindow_def Let_def hannWindow_Inr new_Float32Array_def)
  next
    case False
    then have "toPowerOfTwo v < 0" by simp
    then show ?thesis using Some
      by (simp add: updateWindow_def Let_def hannWindow_Inl)
  qed
qed

lemma updateConfig_keeps_inv:
  assumes inv: "config_inv (config p)" and ret: "updateConfig u p = (None, p')"
  shows "config_inv (config p')"
proof -
  consider (same) "updateWindow (upd_windowSize u) p = Inr (False, p)"
    | (resized) v where "upd_windowSize u = Some v" "0 \<le> toPowerOfTwo v"
        "updateWindow (upd_windowSize u) p =
            Inr (True, p\<lparr> config := (config p)\<lparr> windowSize := toPowerOfTwo v \<rparr>,
                          windowFn := hannFill (toPowerOfTwo v) (replicate (nat (toPowerOfTwo v)) 0),
                          ringBuffer := replicate (nat (toPowerOfTwo v)) 0,
                          analysisBuffer := replicate (nat (toPowerOfTwo v)) 0 \<rparr>)"
    | (threw) q where "updateWindow (upd_windowSize u) p = Inl (RangeError, q)"
    using updateWindow_cases [of "upd_windowSize u" p] by blast
  then show ?thesis
  proof cases
    case same
    then have c: "config p' = (updateFields u (config p))\<lparr> hopSize :=
        min (hopSize (updateFields u (config p))) (windowSize (config p)) \<rparr>"
      using ret by (auto simp: updateConfig_def Let_def)
    show ?thesis
      using inv updateFields_hopSize [of "config p" u] updateFields_minHz [of "config p" u]
        updateFields_band [of u "config p"]
      unfolding c config_inv_def by auto
  next
    case resized
    obtain m where m: "5 \<le> m" "toPowerOfTwo v = 2 ^ m"
      using toPowerOfTwo_nonneg [OF resized(2)] by blast
    let ?cfg = "updateFields u ((config p)\<lparr> windowSize := toPowerOfTwo v \<rparr>)"
    have c: "config p' = ?cfg\<lparr> hopSize := min (hopSize ?cfg) (toPowerOfTwo v) \<rparr>"
      using ret resized(3) by (auto simp: updateConfig_def Let_def resetBuffers_def)
    have h: "1 \<le> hopSize ?cfg" using inv by (intro updateFields_hopSize) (simp add: config_inv_def)
    have mn: "0 \<le> minHz ?cfg" using inv by (intro updateFields_minHz) (simp add: config_inv_def)
    have one: "(1::int) \<le> 2 ^ m" by simp
    show ?thesis
      using h mn m one updateFields_band [of u "(config p)\<lparr> windowSize := toPowerOfTwo v \<rparr>"]
      unfolding c config_inv_def by auto
  next
    case threw
    then show ?thesis using ret by (simp add: updateConfig_def)
  qed
qed

lemma DEFAULT_config_inv: "config_inv DEFAULT_AUDIO_CONFIG"
proof -
  have "(16384::int) = 2 ^ 14" by simp
  then have "\<exists>m. 5 \<le> m \<and> (16384::int) = 2 ^ m" by (intro exI [of _ 14]) simp
  then show ?thesis by (simp add: config_inv_def DEFAULT_AUDIO_CONFIG_def)
qed

lemma default_processor_config [simp]: "config default_processor = DEFAULT_AUDIO_CONFIG"
  by (simp add: default_processor_def fresh_processor_def)

text \<open>
  C8 fails on the code. \<open>updateConfig({windowSize: 2000000000})\<close> on the default
  orchestrator: \<open>toPowerOfTwo\<close> rounds \<open>log2(2000000000) = 30.9\<close> to 31 and \<open>1 << 31\<close> is
  \<open>-2147483648\<close> in 32 bits; the configuration gets this window size, the allocation of the
  window table throws, and the configuration that stays behind violates the invariant.
\<close>

theorem updateConfig_window_overflow:
  "updateConfig (no_updates\<lparr> upd_windowSize := Some 2000000000 \<rparr>) default_processor
     = (Some RangeError,
        default_processor\<lparr> config := DEFAULT_AUDIO_CONFIG\<lparr> windowSize := - 2147483648 \<rparr> \<rparr>)
   \<and> config_inv (config default_processor)
   \<and> \<not> config_inv (config (snd (updateConfig
          (no_updates\<lparr> upd_windowSize := Some 2000000000 \<rparr>) default_processor)))"
proof -
  have ne: "(2000000000::real) \<noteq> of_int (windowSize DEFAULT_AUDIO_CONFIG)"
    by (simp add: DEFAULT_AUDIO_CONFIG_def)
  have ne2: "- 2147483648 \<noteq> windowSize DEFAULT_AUDIO_CONFIG"
    by (simp add: DEFAULT_AUDIO_CONFIG_def)
  have w: "updateWindow (Some 2000000000) default_processor
           = Inl (RangeError,
               default_processor\<lparr> config := DEFAULT_AUDIO_CONFIG\<lparr> windowSize := - 2147483648 \<rparr> \<rparr>)"
    using ne ne2 by (simp add: updateWindow_def toPowerOfTwo_2e9 Let_def hannWindow_Inl)
  have u: "updateConfig (no_updates\<lparr> upd_windowSize := Some 2000000000 \<rparr>) default_processor
     = (Some RangeError,
        default_processor\<lparr> config := DEFAULT_AUDIO_CONFIG\<lparr> windowSize := - 2147483648 \<rparr> \<rparr>)"
    using w by (simp add: updateConfig_def no_updates_def)
  have bad: "\<not> config_inv (DEFAULT_AUDIO_CONFIG\<lparr> windowSize := - 2147483648 \<rparr>)"
    by (simp add: config_inv_def DEFAULT_AUDIO_CONFIG_def)
  show ?thesis unfolding u using bad DEFAULT_config_inv by simp
qed

lemma resetBuffers_config [simp]: "config (resetBuffers q) = config q"
  by (simp add: resetBuffers_def)





section \<open>The pitch-class mapper: the table and the distribution\<close>

lemma wrap12_mod: "wrap12 r = nat (r mod 12)"
proof (cases "0 \<le> r")
  case True
  then have "js_rem r 12 = r mod 12" by (cases "r = 0") (simp_all add: js_rem_def)
  moreover have "js_rem (r mod 12 + 12) 12 = r mod 12"
  proof -
    have "0 \<le> r mod 12" by simp
    then have "0 < r mod 12 + 12" by linarith
    then show ?thesis by (simp add: js_rem_def)
  qed
  ultimately show ?thesis by (simp add: wrap12_def)
next
  case False
  then have r: "js_rem r 12 = - ((- r) mod 12)" by (simp add: js_rem_def)
  have "(- r) mod 12 < 12" by simp
  then have pos: "0 < - ((- r) mod 12) + 12" by linarith
  have "js_rem (- ((- r) mod 12) + 12) 12 = (- ((- r) mod 12) + 12) mod 12"
    using pos by (simp add: js_rem_def)
  also have "\<dots> = (- ((- r) mod 12)) mod 12" by simp
  also have "\<dots> = (- (- r)) mod 12" by (rule mod_minus_eq)
  finally show ?thesis by (simp add: wrap12_def r)
qed

lemma wrap12_less: "wrap12 r < 12"
  by (simp add: wrap12_mod nat_less_iff)

lemma lookupEntry_less: "lookupEntry binHz l k < 12"
  by (simp add: lookupEntry_def Let_def wrap12_less)

lemma pitch_class_spec_range:
  "0 \<le> pitch_class_spec len sr a4 k \<and> pitch_class_spec len sr a4 k < 12"
  by (simp add: pitch_class_spec_def)

lemma lookupEntry_spec:
  assumes "0 < sr" "0 < a4" "0 < k" "0 < len"
  shows "int (lookupEntry (sr / (real len * 2)) (log 2 a4) k) = pitch_class_spec len sr a4 k"
proof -
  let ?freq = "real k * (sr / (real len * 2))"
  have f: "0 < ?freq" using assms by simp
  have "log 2 ?freq - log 2 a4 = log 2 (?freq / a4)"
    using f assms(2) by (rule log_divide_pos [symmetric])
  also have "?freq / a4 = (real k * sr / (2 * real len)) / a4" by (simp add: field_simps)
  finally have "lookupEntry (sr / (real len * 2)) (log 2 a4) k
      = nat (pitch_class_spec len sr a4 k)"
    using f by (simp add: lookupEntry_def Let_def wrap12_mod pitch_class_spec_def)
  then show ?thesis using pitch_class_spec_range [of len sr a4 k] by simp
qed

lemma buildLookup_length [simp]: "length (buildLookup len sr a4) = len"
  by (simp add: buildLookup_def Let_def)

lemma buildLookup_nth:
  "k < len \<Longrightarrow> buildLookup len sr a4 ! k = lookupEntry (sr / (real len * 2)) (log 2 a4) k"
  by (simp add: buildLookup_def Let_def)

lemma buildLookup_less: "k < len \<Longrightarrow> buildLookup len sr a4 ! k < 12"
  by (simp add: buildLookup_nth lookupEntry_less)

lemma ensureLookup_table_eq:
  "pcc_inv c \<Longrightarrow> lookupTable (ensureLookup len sr a4 c) = Some (buildLookup len sr a4)"
  by (auto simp: ensureLookup_def pcc_inv_def split: option.splits)

lemma ensureLookup_inv: "pcc_inv c \<Longrightarrow> pcc_inv (ensureLookup len sr a4 c)"
  by (auto simp: ensureLookup_def pcc_inv_def split: option.splits)

lemma ensureLookup_buffers [simp]:
  "output_pcd (ensureLookup len sr a4 c) = output_pcd c"
  "zero_pcd (ensureLookup len sr a4 c) = zero_pcd c"
  by (simp_all add: ensureLookup_def)

lemma new_PitchClassComputer_inv: "pcc_inv new_PitchClassComputer"
  by (simp add: pcc_inv_def new_PitchClassComputer_def)

text \<open>
  C3. For a mapper in a reachable state, a positive sample rate and a positive reference
  pitch, the table that \<open>ensureLookup\<close> leaves has one entry for each bin, the entry of
  every bin \<open>k > 0\<close> is the pitch class of the specification, in \<open>[0, 11]\<close>, and the
  mapper is left as it is (the table is not rebuilt) when it has a table and the key is
  the one of the table; otherwise the key is stored and the table is built.
\<close>

theorem ensureLookup_table:
  assumes "pcc_inv c" "0 < rate" "0 < a4"
  shows "\<exists>t. lookupTable (ensureLookup len rate a4 c) = Some t \<and> length t = len
     \<and> (\<forall>k. 0 < k \<and> k < len \<longrightarrow>
           int (t ! k) = pitch_class_spec len rate a4 k \<and> t ! k < 12)
     \<and> (lookupTable c \<noteq> None \<and> prevLength c = len \<and> prevSampleRate c = rate
          \<and> prevA4 c = a4 \<longrightarrow> ensureLookup len rate a4 c = c)
     \<and> (\<not> (lookupTable c \<noteq> None \<and> prevLength c = len \<and> prevSampleRate c = rate
             \<and> prevA4 c = a4) \<longrightarrow>
          ensureLookup len rate a4 c
            = c\<lparr> prevSampleRate := rate, prevA4 := a4, prevLength := len,
                 lookupTable := Some (buildLookup len rate a4) \<rparr>)
     \<and> pcc_inv (ensureLookup len rate a4 c)"
proof -
  have "int (buildLookup len rate a4 ! k) = pitch_class_spec len rate a4 k
        \<and> buildLookup len rate a4 ! k < 12" if "0 < k" "k < len" for k
    using that assms lookupEntry_spec [of rate a4 k len]
    by (simp add: buildLookup_nth lookupEntry_less)
  then show ?thesis
    using ensureLookup_table_eq [OF assms(1), of len rate a4]
      ensureLookup_inv [OF assms(1), of len rate a4]
    by (auto simp: ensureLookup_def)
qed

theorem ensureLookup_table_witness:
  "\<exists>t. lookupTable (ensureLookup 4 3520 440 new_PitchClassComputer) = Some t \<and> length t = 4
     \<and> t ! 1 = 9 \<and> t ! 2 = 9"
proof -
  obtain t where t: "lookupTable (ensureLookup 4 3520 440 new_PitchClassComputer) = Some t"
      "length t = 4"
      "\<forall>k. 0 < k \<and> k < 4 \<longrightarrow> int (t ! k) = pitch_class_spec 4 3520 440 k \<and> t ! k < 12"
    using ensureLookup_table [of new_PitchClassComputer 3520 440 4] new_PitchClassComputer_inv
    by auto
  have "pitch_class_spec 4 3520 440 1 = 9" by (simp add: pitch_class_spec_def)
  moreover have "pitch_class_spec 4 3520 440 2 = 9" by (simp add: pitch_class_spec_def)
  ultimately have "int (t ! 1) = 9" "int (t ! 2) = 9" using t(3) by auto
  then show ?thesis using t(1,2) by simp
qed

lemma sum_int_split_first:
  fixes f :: "int \<Rightarrow> real"
  assumes "k \<le> hi"
  shows "(\<Sum>j = k..hi. f j) = f k + (\<Sum>j = k + 1..hi. f j)"
proof -
  have "{k..hi} = insert k {k + 1..hi}" using assms by auto
  then show ?thesis by simp
qed

lemma accumulate_length: "length (accumulate k hi mags thr tbl out) = length out"
proof (induction "nat (hi + 1 - k)" arbitrary: k out)
  case 0
  then show ?case by (subst accumulate.simps) simp
next
  case (Suc d)
  then have "nat (hi + 1 - (k + 1)) = d" by simp
  from Suc(1) [OF this [symmetric]] show ?case
    by (subst accumulate.simps) (simp add: Let_def)
qed

lemma accumulate_nth:
  assumes "\<forall>j. k \<le> j \<and> j \<le> hi \<longrightarrow> tbl ! nat j < length out" "c < length out"
  shows "accumulate k hi mags thr tbl out ! c
         = out ! c + (\<Sum>j = k..hi. if thr < mags ! nat j \<and> tbl ! nat j = c
                                   then mags ! nat j * mags ! nat j else 0)"
  using assms
proof (induction "nat (hi + 1 - k)" arbitrary: k out)
  case 0
  then have "\<not> k \<le> hi" by simp
  then show ?case by (subst accumulate.simps) simp
next
  case (Suc d)
  then have k: "k \<le> hi" and d: "d = nat (hi + 1 - (k + 1))" by simp_all
  let ?out = "if mags ! nat k > thr
              then out[tbl ! nat k := out ! (tbl ! nat k) + mags ! nat k * mags ! nat k] else out"
  have len: "length ?out = length out" by simp
  have t: "tbl ! nat k < length out" using Suc.prems(1) k by simp
  have IH: "accumulate (k + 1) hi mags thr tbl ?out ! c
        = ?out ! c + (\<Sum>j = k + 1..hi. if thr < mags ! nat j \<and> tbl ! nat j = c
                                   then mags ! nat j * mags ! nat j else 0)"
    using Suc.prems by (intro Suc(1) [OF d]) (auto simp: len)
  have step: "?out ! c = out ! c + (if thr < mags ! nat k \<and> tbl ! nat k = c
                                    then mags ! nat k * mags ! nat k else 0)"
    using t Suc.prems(2) by (auto simp: nth_list_update)
  have "accumulate k hi mags thr tbl out = accumulate (k + 1) hi mags thr tbl ?out"
    using k by (subst accumulate.simps) (simp add: Let_def)
  then show ?case
    unfolding sum_int_split_first [OF k] using IH step by simp
qed

lemma sum_list_map_upt_nonneg_zero:
  assumes "\<forall>x \<in> set xs. (0::real) \<le> x" "\<not> 0 < sum_list xs"
  shows "xs = replicate (length xs) 0"
proof -
  have "sum_list xs = 0" using assms sum_list_nonneg [of xs] by force
  then have "\<forall>x \<in> set xs. x = 0" using assms(1) by (simp add: sum_list_nonneg_eq_0_iff)
  then show ?thesis by (simp add: list_all_zero_replicate [symmetric] list_all_iff)
qed

lemma js_pow_nonneg: "0 \<le> x \<Longrightarrow> 0 \<le> js_pow x p"
  by (simp add: js_pow_def)

text \<open>The band of \<open>compute\<close>, and the energy that the aggregation loop leaves.\<close>

lemma compute_unfold:
  assumes "pcc_inv c"
  shows "fst (compute mags rate opts c) =
     (let len = length mags;
          binHz = rate / (real len * 2);
          lo = max 1 \<lfloor>minHz opts / binHz\<rfloor>;
          hi = min (int len - 1) \<lfloor>maxHz opts / binHz\<rfloor>;
          out1 = accumulate lo hi mags (pcdThreshold opts) (buildLookup len rate (refA4 opts))
                   (replicate 12 0);
          out2 = (if pcdNormalize opts \<noteq> 1
                  then map (\<lambda>x. js_pow x (pcdNormalize opts)) out1 else out1);
          sm = sum_list out2
      in if sm > 0 then map (\<lambda>x. x * (1 / sm)) out2 else out2)"
    and "snd (compute mags rate opts c)
         = (ensureLookup (length mags) rate (refA4 opts) c)
             \<lparr> output_pcd := fst (compute mags rate opts c) \<rparr>"
proof -
  have "length (output_pcd c) = 12" using assms by (simp add: pcc_inv_def)
  then show "fst (compute mags rate opts c) =
     (let len = length mags;
          binHz = rate / (real len * 2);
          lo = max 1 \<lfloor>minHz opts / binHz\<rfloor>;
          hi = min (int len - 1) \<lfloor>maxHz opts / binHz\<rfloor>;
          out1 = accumulate lo hi mags (pcdThreshold opts) (buildLookup len rate (refA4 opts))
                   (replicate 12 0);
          out2 = (if pcdNormalize opts \<noteq> 1
                  then map (\<lambda>x. js_pow x (pcdNormalize opts)) out1 else out1);
          sm = sum_list out2
      in if sm > 0 then map (\<lambda>x. x * (1 / sm)) out2 else out2)"
    by (simp add: compute_def Let_def ensureLookup_table_eq [OF assms])
  show "snd (compute mags rate opts c)
         = (ensureLookup (length mags) rate (refA4 opts) c)
             \<lparr> output_pcd := fst (compute mags rate opts c) \<rparr>"
    by (simp add: compute_def Let_def)
qed

lemma band_table_less:
  assumes "1 \<le> lo" "hi \<le> int len - 1" "lo \<le> j \<and> j \<le> hi"
  shows "buildLookup len rate a4 ! nat j < 12"
  using assms by (intro buildLookup_less) auto

lemma energy_nth:
  assumes "1 \<le> lo" "hi \<le> int len - 1" "c < 12"
  shows "accumulate lo hi mags thr (buildLookup len rate a4) (replicate 12 0) ! c
         = (\<Sum>j = lo..hi. if thr < mags ! nat j \<and> buildLookup len rate a4 ! nat j = c
                           then mags ! nat j * mags ! nat j else 0)"
proof -
  have "\<forall>j. lo \<le> j \<and> j \<le> hi \<longrightarrow>
          buildLookup len rate a4 ! nat j < length (replicate 12 (0::real))"
    using band_table_less [OF assms(1,2)] by simp
  then show ?thesis using assms(3) by (subst accumulate_nth) simp_all
qed

lemma energy_nonneg:
  assumes "1 \<le> lo" "hi \<le> int len - 1"
  shows "\<forall>x \<in> set (accumulate lo hi mags thr (buildLookup len rate a4) (replicate 12 0)). 0 \<le> x"
proof -
  let ?out = "accumulate lo hi mags thr (buildLookup len rate a4) (replicate 12 0)"
  have len: "length ?out = 12" by (simp add: accumulate_length)
  have "0 \<le> ?out ! c" if "c < 12" for c
    unfolding energy_nth [OF assms that] by (intro sum_nonneg) simp
  then show ?thesis using len by (metis in_set_conv_nth)
qed

lemma normalized_props:
  fixes out2 :: "real list"
  assumes "\<forall>x \<in> set out2. 0 \<le> x" "length out2 = 12"
  defines "res \<equiv> (if sum_list out2 > 0 then map (\<lambda>x. x * (1 / sum_list out2)) out2 else out2)"
  shows "length res = 12" "\<forall>x \<in> set res. 0 \<le> x"
    "sum_list out2 > 0 \<longrightarrow> sum_list res = 1" "\<not> sum_list out2 > 0 \<longrightarrow> res = replicate 12 0"
proof -
  show "length res = 12" using assms(2) by (simp add: res_def)
  show "\<forall>x \<in> set res. 0 \<le> x" using assms(1) by (auto simp: res_def)
  show "sum_list out2 > 0 \<longrightarrow> sum_list res = 1"
  proof
    assume p: "sum_list out2 > 0"
    have "sum_list (map (\<lambda>x. x * k) xs) = sum_list xs * k" for k :: real and xs
      by (induction xs) (simp_all add: algebra_simps)
    then have "sum_list (map (\<lambda>x. x * (1 / sum_list out2)) out2)
               = sum_list out2 * (1 / sum_list out2)" .
    also have "\<dots> = 1" using p by simp
    finally show "sum_list res = 1" using p by (simp only: res_def if_True)
  qed
  show "\<not> sum_list out2 > 0 \<longrightarrow> res = replicate 12 0"
    using sum_list_map_upt_nonneg_zero [OF assms(1)] assms(2) by (simp add: res_def)
qed

lemma compute_props:
  assumes "pcc_inv c"
  shows "length (fst (compute mags rate opts c)) = 12"
    "\<forall>x \<in> set (fst (compute mags rate opts c)). 0 \<le> x"
    "sum_list (fst (compute mags rate opts c)) = 1
     \<or> fst (compute mags rate opts c) = replicate 12 0"
    "pcc_inv (snd (compute mags rate opts c))"
proof -
  let ?len = "length mags"
  let ?binHz = "rate / (real ?len * 2)"
  let ?lo = "max 1 \<lfloor>minHz opts / ?binHz\<rfloor>"
  let ?hi = "min (int ?len - 1) \<lfloor>maxHz opts / ?binHz\<rfloor>"
  let ?out1 = "accumulate ?lo ?hi mags (pcdThreshold opts) (buildLookup ?len rate (refA4 opts))
                 (replicate 12 0)"
  let ?out2 = "(if pcdNormalize opts \<noteq> 1
                then map (\<lambda>x. js_pow x (pcdNormalize opts)) ?out1 else ?out1)"
  have b: "1 \<le> ?lo" "?hi \<le> int ?len - 1" by simp_all
  have n1: "\<forall>x \<in> set ?out1. 0 \<le> x" using energy_nonneg [OF b] by blast
  have l1: "length ?out1 = 12" by (simp add: accumulate_length)
  have n2: "\<forall>x \<in> set ?out2. 0 \<le> x" using n1 by (auto simp: js_pow_nonneg)
  have l2: "length ?out2 = 12" using l1 by simp
  have r: "fst (compute mags rate opts c)
           = (if sum_list ?out2 > 0 then map (\<lambda>x. x * (1 / sum_list ?out2)) ?out2 else ?out2)"
    unfolding compute_unfold(1) [OF assms] Let_def ..
  show "length (fst (compute mags rate opts c)) = 12"
    unfolding r using normalized_props(1) [OF n2 l2] .
  show "\<forall>x \<in> set (fst (compute mags rate opts c)). 0 \<le> x"
    unfolding r using normalized_props(2) [OF n2 l2] .
  show "sum_list (fst (compute mags rate opts c)) = 1
     \<or> fst (compute mags rate opts c) = replicate 12 0"
    unfolding r using normalized_props(3,4) [OF n2 l2] by blast
  show "pcc_inv (snd (compute mags rate opts c))"
    unfolding compute_unfold(2) [OF assms]
    using ensureLookup_inv [OF assms, of "length mags" rate "refA4 opts"]
      \<open>length (fst (compute mags rate opts c)) = 12\<close>
    by (simp add: pcc_inv_def split: option.splits)
qed

text \<open>
  C2. For a mapper in a reachable state, a positive sample rate, a positive reference
  pitch and a normalisation exponent \<open>\<ge> 0\<close>, the vector that \<open>compute\<close> returns is the
  reference definition of the specification.
\<close>

theorem compute_refines_reference:
  assumes "pcc_inv c" "0 < rate" "0 < refA4 opts" "0 \<le> pcdNormalize opts"
  shows "fst (compute mags rate opts c) = pcd_reference mags rate opts"
proof -
  let ?len = "length mags"
  let ?binHz = "rate / (real ?len * 2)"
  let ?lo = "max 1 \<lfloor>minHz opts / ?binHz\<rfloor>"
  let ?hi = "min (int ?len - 1) \<lfloor>maxHz opts / ?binHz\<rfloor>"
  let ?tbl = "buildLookup ?len rate (refA4 opts)"
  let ?out1 = "accumulate ?lo ?hi mags (pcdThreshold opts) ?tbl (replicate 12 0)"
  let ?energy = "map (\<lambda>c. \<Sum>k = ?lo..?hi.
                      if mags ! nat k > pcdThreshold opts
                         \<and> pitch_class_spec ?len rate (refA4 opts) (nat k) = int c
                      then (mags ! nat k)\<^sup>2 else 0) [0..<12]"
  let ?pow = "\<lambda>xs. (if pcdNormalize opts \<noteq> 1
                then map (\<lambda>x. js_pow x (pcdNormalize opts)) xs else xs)"
  have b: "1 \<le> ?lo" "?hi \<le> int ?len - 1" by simp_all
  have cls: "(?tbl ! nat j = c') \<longleftrightarrow> (pitch_class_spec ?len rate (refA4 opts) (nat j) = int c')"
    if "j \<in> {?lo..?hi}" for j c'
  proof -
    have j: "0 < nat j" "nat j < ?len" using that by auto
    then have "0 < ?len" by (cases mags) simp_all
    then have "int (?tbl ! nat j) = pitch_class_spec ?len rate (refA4 opts) (nat j)"
      using lookupEntry_spec [OF assms(2,3) j(1), of ?len] j(2) by (simp add: buildLookup_nth)
    then show ?thesis by auto
  qed
  have nth: "?out1 ! c' = ?energy ! c'" if c': "c' < 12" for c'
  proof -
    have "?out1 ! c' = (\<Sum>j = ?lo..?hi. if pcdThreshold opts < mags ! nat j \<and> ?tbl ! nat j = c'
                           then mags ! nat j * mags ! nat j else 0)"
      by (rule energy_nth [OF b c'])
    also have "\<dots> = (\<Sum>k = ?lo..?hi.
                      if mags ! nat k > pcdThreshold opts
                         \<and> pitch_class_spec ?len rate (refA4 opts) (nat k) = int c'
                      then (mags ! nat k)\<^sup>2 else 0)"
      by (rule sum.cong) (simp_all add: cls power2_eq_square)
    also have "\<dots> = ?energy ! c'" using c' by simp
    finally show ?thesis .
  qed
  have eq1: "?out1 = ?energy"
  proof (rule nth_equalityI)
    show "length ?out1 = length ?energy" by (simp add: accumulate_length)
  next
    fix i assume "i < length ?out1"
    then have "i < 12" by (simp add: accumulate_length)
    then show "?out1 ! i = ?energy ! i" by (rule nth)
  qed
  have n2: "\<forall>x \<in> set (?pow ?out1). 0 \<le> x"
    using energy_nonneg [OF b, of mags "pcdThreshold opts" rate "refA4 opts"]
    by (auto simp: js_pow_nonneg)
  have l2: "length (?pow ?out1) = 12" by (simp add: accumulate_length)
  have code: "fst (compute mags rate opts c)
      = (if sum_list (?pow ?out1) > 0
         then map (\<lambda>x. x * (1 / sum_list (?pow ?out1))) (?pow ?out1) else ?pow ?out1)"
    unfolding compute_unfold(1) [OF assms(1)] Let_def ..
  have ref: "pcd_reference mags rate opts
      = (if sum_list (?pow ?energy) > 0
         then map (\<lambda>x. x / sum_list (?pow ?energy)) (?pow ?energy) else replicate 12 0)"
    by (simp add: pcd_reference_def Let_def mult.commute)
  show ?thesis
  proof (cases "sum_list (?pow ?out1) > 0")
    case True
    then show ?thesis unfolding code ref eq1 [symmetric] by simp
  next
    case False
    then have "?pow ?out1 = replicate 12 0"
      using sum_list_map_upt_nonneg_zero [OF n2] l2 by simp
    then show ?thesis using False unfolding code ref eq1 [symmetric] by simp
  qed
qed

lemma upt_12: "[0..<12] = [0, 1, 2, 3, 4, 5, 6, 7, 8, 9, 10, 11::nat]"
  by code_simp

theorem compute_refines_reference_witness:
  "fst (compute [0, 1, 0, 0] 3520 (DEFAULT_AUDIO_CONFIG\<lparr> maxHz := 500 \<rparr>) new_PitchClassComputer)
     = [0, 0, 0, 0, 0, 0, 0, 0, 0, 1, 0, 0]"
proof -
  let ?opts = "DEFAULT_AUDIO_CONFIG\<lparr> maxHz := 500 \<rparr>"
  have o: "minHz ?opts = 50" "maxHz ?opts = 500" "pcdThreshold ?opts = 0.005"
      "pcdNormalize ?opts = 1" "refA4 ?opts = 440"
    by (simp_all add: DEFAULT_AUDIO_CONFIG_def)
  have pc: "pitch_class_spec 4 3520 440 (Suc 0) = 9" by (simp add: pitch_class_spec_def)
  have len: "length [0::real, 1, 0, 0] = 4" by simp
  have fl: "max 1 \<lfloor>(50::real) / (3520 / (2 * real 4))\<rfloor> = 1"
      "min (int 4 - 1) \<lfloor>(500::real) / (3520 / (2 * real 4))\<rfloor> = 1"
    by (simp_all add: floor_eq_iff)
  have e: "map (\<lambda>c. \<Sum>k = (1::int)..1.
                      if [0::real, 1, 0, 0] ! nat k > 0.005
                         \<and> pitch_class_spec 4 3520 440 (nat k) = int c
                      then ([0::real, 1, 0, 0] ! nat k)\<^sup>2 else 0) [0..<12]
           = [0, 0, 0, 0, 0, 0, 0, 0, 0, 1, 0, 0]"
    unfolding upt_12 by (simp add: pc)
  have "pcd_reference [0, 1, 0, 0] 3520 ?opts = [0, 0, 0, 0, 0, 0, 0, 0, 0, 1, 0, 0]"
    unfolding pcd_reference_def Let_def len o fl e by simp
  then show ?thesis
    using compute_refines_reference [of new_PitchClassComputer 3520 ?opts "[0, 1, 0, 0]"]
      new_PitchClassComputer_inv o
    by simp
qed

section \<open>The primary pitch estimator\<close>






section \<open>The orchestrator: the per-hop pipeline and the smoothing\<close>

lemma fold_update_upt:
  "n \<le> length c \<Longrightarrow>
   fold (\<lambda>i a. a[i := g i (a ! i)]) [0..<n] c = map (\<lambda>i. g i (c ! i)) [0..<n] @ drop n c"
proof (induction n)
  case 0
  then show ?case by simp
next
  case (Suc n)
  then have n: "n < length c" by simp
  let ?pre = "map (\<lambda>i. g i (c ! i)) [0..<n]"
  have "fold (\<lambda>i a. a[i := g i (a ! i)]) [0..<Suc n] c
        = (?pre @ drop n c)[n := g n ((?pre @ drop n c) ! n)]"
    using Suc by simp
  also have "(?pre @ drop n c) ! n = c ! n" using n by (simp add: nth_append)
  also have "(?pre @ drop n c)[n := g n (c ! n)] = ?pre @ (drop n c)[0 := g n (c ! n)]"
    by (simp add: list_update_append)
  also have "(drop n c)[0 := g n (c ! n)] = g n (c ! n) # drop (Suc n) c"
    using n by (simp add: Cons_nth_drop_Suc [symmetric])
  finally show ?case by simp
qed

lemma smoothLoop_eq:
  assumes "length cur = 12"
  shows "smoothLoop s b raw cur = map (\<lambda>i. s * cur ! i + b * raw ! i) [0..<12]"
  unfolding smoothLoop_def
  using fold_update_upt [of 12 cur "\<lambda>i x. s * x + b * raw ! i"] assms by simp

lemma smoothLoop_length: "length cur = 12 \<Longrightarrow> length (smoothLoop s b raw cur) = 12"
  by (simp add: smoothLoop_eq)

lemma smoothLoop_nth:
  "length cur = 12 \<Longrightarrow> i < 12 \<Longrightarrow> smoothLoop s b raw cur ! i = s * cur ! i + b * raw ! i"
  by (simp add: smoothLoop_eq del: upt_Suc)



lemma applyWindow_eq:
  assumes "length buf = nat n"
  shows "applyWindow n w buf = map (\<lambda>i. buf ! i * w ! i) [0..<nat n]"
  unfolding applyWindow_def
  using fold_update_upt [of "nat n" buf "\<lambda>i x. x * w ! i"] assms by simp

lemma applyWindow_length: "length buf = nat n \<Longrightarrow> length (applyWindow n w buf) = nat n"
  by (simp add: applyWindow_eq)

lemma applyWindow_zero: "applyWindow n w (replicate (nat n) 0) = replicate (nat n) 0"
  by (simp add: applyWindow_eq list_eq_iff_nth_eq)

lemma foldl_squares_zero: "foldl (\<lambda>acc sample. acc + sample * sample) a (replicate n (0::real)) = a"
  by (induction n) simp_all

lemma frameRms_zero: "frameRms (replicate n 0) = 0"
  by (simp add: frameRms_def foldl_squares_zero)

lemma js_rem_small: "0 \<le> a \<Longrightarrow> a < b \<Longrightarrow> js_rem a b = a"
  by (cases "a = 0") (simp_all add: js_rem_def)

lemma linearize_eq:
  assumes "processor_inv p"
  shows "linearize p = drop (nat (writeIndex p)) (ringBuffer p) @ take (nat (writeIndex p)) (ringBuffer p)"
proof -
  have w: "0 \<le> writeIndex p" "writeIndex p < windowSize (config p)"
    and l: "length (ringBuffer p) = nat (windowSize (config p))"
      "length (analysisBuffer p) = nat (windowSize (config p))"
    using assms by (simp_all add: processor_inv_def)
  have st: "js_rem (writeIndex p) (windowSize (config p)) = writeIndex p"
    using w by (rule js_rem_small)
  let ?s = "nat (writeIndex p)"
  let ?first = "drop ?s (ringBuffer p)"
  have s: "?s < length (ringBuffer p)" using w l by simp
  have a1: "typed_set (analysisBuffer p) ?first 0 = ?first @ drop (length ?first) (analysisBuffer p)"
    by (simp add: typed_set_def)
  have lf: "length ?first = length (ringBuffer p) - ?s" by simp
  have lin: "linearize p =
      (if writeIndex p > 0
       then typed_set (typed_set (analysisBuffer p) ?first 0) (take ?s (ringBuffer p)) (length ?first)
       else typed_set (analysisBuffer p) ?first 0)"
    unfolding linearize_def Let_def st ..
  show ?thesis
  proof (cases "writeIndex p > 0")
    case True
    have "typed_set (?first @ drop (length ?first) (analysisBuffer p)) (take ?s (ringBuffer p))
            (length ?first) = ?first @ take ?s (ringBuffer p)"
      using s l by (simp add: typed_set_def)
    then show ?thesis unfolding lin a1 using True by simp
  next
    case False
    then have z: "writeIndex p = 0" using w by simp
    have "typed_set (analysisBuffer p) (ringBuffer p) 0 = ringBuffer p"
      using l by (simp add: typed_set_def)
    then show ?thesis unfolding lin using z by simp
  qed
qed

lemma rotate_length: "length (drop s r @ take s r) = length r"
  by auto

lemma linearize_length:
  "processor_inv p \<Longrightarrow> length (linearize p) = nat (windowSize (config p))"
  unfolding linearize_eq rotate_length by (simp add: processor_inv_def)

lemma linearize_zero:
  assumes "processor_inv p" "ringBuffer p = replicate (nat (windowSize (config p))) 0"
  shows "linearize p = replicate (nat (windowSize (config p))) 0"
proof -
  have "0 \<le> writeIndex p" "writeIndex p < windowSize (config p)"
    using assms(1) by (simp_all add: processor_inv_def)
  then have "nat (windowSize (config p)) - nat (writeIndex p) + nat (writeIndex p)
             = nat (windowSize (config p))" by simp
  then show ?thesis
    unfolding linearize_eq [OF assms(1)] assms(2)
    by (simp add: replicate_add [symmetric] min_def)
qed

lemma hopFrame_length:
  "processor_inv p \<Longrightarrow> length (hopFrame p) = nat (windowSize (config p))"
  by (simp add: hopFrame_def applyWindow_length linearize_length)

lemma hopFrame_zero:
  assumes "processor_inv p" "ringBuffer p = replicate (nat (windowSize (config p))) 0"
  shows "hopFrame p = replicate (nat (windowSize (config p))) 0" "hopRms p = 0"
  by (simp_all add: hopRms_def hopFrame_def linearize_zero [OF assms] applyWindow_zero frameRms_zero)

lemma getSilentOutput_props:
  assumes "pcc_inv c"
  shows "fst (getSilentOutput c) = replicate 12 0" "pcc_inv (snd (getSilentOutput c))"
  using assms by (simp_all add: getSilentOutput_def Let_def pcc_inv_def split: option.splits)

lemma rawStage_props:
  assumes "pcc_inv (pcdComputer p)"
  shows "length (fst (rawStage r mags p)) = 12"
    "\<forall>x \<in> set (fst (rawStage r mags p)). 0 \<le> x"
    "sum_list (fst (rawStage r mags p)) = 1 \<or> fst (rawStage r mags p) = replicate 12 0"
    "pcc_inv (snd (rawStage r mags p))"
    "r < pcdMinRms (config p) \<longrightarrow> fst (rawStage r mags p) = replicate 12 0"
  using compute_props [OF assms, of mags "sampleRate p" "config p"]
    getSilentOutput_props [OF assms]
  by (simp_all add: rawStage_def)

lemma sum_list_replicate_zero [simp]: "sum_list (replicate n (0::real)) = 0"
  by (induction n) simp_all


lemma pcdStage_fields [simp]:
  "config (pcdStage r mags p) = config p" "tunerConfig (pcdStage r mags p) = tunerConfig p"
  "sampleRate (pcdStage r mags p) = sampleRate p" "running (pcdStage r mags p) = running p"
  "fft (pcdStage r mags p) = fft p" "windowFn (pcdStage r mags p) = windowFn p"
  "ringBuffer (pcdStage r mags p) = ringBuffer p"
  "analysisBuffer (pcdStage r mags p) = analysisBuffer p"
  "writeIndex (pcdStage r mags p) = writeIndex p" "filled (pcdStage r mags p) = filled p"
  "hopCounter (pcdStage r mags p) = hopCounter p" "lastRms (pcdStage r mags p) = lastRms p"
  "dispatched (pcdStage r mags p) = dispatched p"
  "pcdComputer (pcdStage r mags p) = snd (rawStage r mags p)"
  by (simp_all add: pcdStage_def Let_def split_beta)

lemma pcdStage_rawPcd:
  assumes "pcc_inv (pcdComputer p)" "length (rawPcd p) = 12"
  shows "rawPcd (pcdStage r mags p) = fst (rawStage r mags p)"
  using rawStage_props(1) [OF assms(1), of r mags] assms(2)
  by (simp add: pcdStage_def Let_def split_beta typed_set_def)

lemma pcdStage_currentPcd:
  assumes "pcc_inv (pcdComputer p)" "length (rawPcd p) = 12"
  shows "currentPcd (pcdStage r mags p)
         = smoothLoop (clamp (smoothing (config p)) 0 0.999)
             (1 - clamp (smoothing (config p)) 0 0.999) (fst (rawStage r mags p)) (currentPcd p)"
  using rawStage_props(1) [OF assms(1), of r mags] assms(2)
  by (simp add: pcdStage_def Let_def split_beta typed_set_def)


lemma clamp_id: "lo \<le> v \<Longrightarrow> v \<le> hi \<Longrightarrow> clamp v lo hi = v"
  by (simp add: clamp_def)

lemma pcdStage_inv:
  assumes "processor_inv p"
  shows "processor_inv (pcdStage r mags p)"
proof -
  have c: "pcc_inv (pcdComputer p)" "length (rawPcd p) = 12" "length (currentPcd p) = 12"
    using assms by (simp_all add: processor_inv_def)
  show ?thesis
    using assms rawStage_props(1,4) [OF c(1), of r mags]
    unfolding processor_inv_def
    by (simp add: pcdStage_rawPcd [OF c(1,2)] pcdStage_currentPcd [OF c(1,2)] smoothLoop_length c(3))
qed

text \<open>What \<open>processFrame\<close> does to a running, well-formed orchestrator.\<close>

lemma processFrame_returns:
  assumes inv: "processor_inv p" and run: "running p"
  shows "\<exists>mags f'. transform (hopFrame p) (fft p) = Some (mags, f') \<and> fft_inv f'
     \<and> (hopFrame p = replicate (length (hopFrame p)) 0 \<longrightarrow> mags = replicate (length mags) 0)
     \<and> processFrame p =
         Some ((pcdStage (hopRms p) mags
                  (p\<lparr> analysisBuffer := hopFrame p, lastRms := hopRms p, fft := f' \<rparr>))
               \<lparr> dispatched := dispatched p @
                    [Analysis \<lparr> pcd = currentPcd (pcdStage (hopRms p) mags
                                   (p\<lparr> analysisBuffer := hopFrame p, lastRms := hopRms p, fft := f' \<rparr>)),
                       rawPcd_detail = rawPcd (pcdStage (hopRms p) mags
                                   (p\<lparr> analysisBuffer := hopFrame p, lastRms := hopRms p, fft := f' \<rparr>)),
                       rms = hopRms p, magnitudes = mags,
                       primary = tunerStage (hopRms p) mags (pcdStage (hopRms p) mags
                                   (p\<lparr> analysisBuffer := hopFrame p, lastRms := hopRms p, fft := f' \<rparr>)),
                       sampleRate_detail = sampleRate p \<rparr>] \<rparr>)"
proof -
  obtain m where m: "5 \<le> m" "m \<le> 29" "windowSize (config p) = 2 ^ m"
    using inv by (auto simp: processor_inv_def)
  have fl: "length (hopFrame p) = 2 ^ m"
    using hopFrame_length [OF inv] m(3) by (simp add: nat_power_eq)
  have "(2::nat) ^ m \<le> 2 ^ 29" using m(2) by (intro power_increasing) auto
  then have le: "length (hopFrame p) \<le> 2 ^ 29" using fl by simp
  have fi: "fft_inv (fft p)" using inv by (simp add: processor_inv_def)
  obtain m' mags f' where t: "transform (hopFrame p) (fft p) = Some (mags, f')" "fft_inv f'"
      "length mags = 2 ^ m' div 2"
      "hopFrame p = replicate (length (hopFrame p)) 0 \<longrightarrow> mags = replicate (2 ^ m' div 2) 0"
    using transform_returns [OF fi le] by blast
  have z: "hopFrame p = replicate (length (hopFrame p)) 0 \<longrightarrow> mags = replicate (length mags) 0"
    using t(3,4) by simp
  have "processFrame p =
         Some ((pcdStage (hopRms p) mags
                  (p\<lparr> analysisBuffer := hopFrame p, lastRms := hopRms p, fft := f' \<rparr>))
               \<lparr> dispatched := dispatched p @
                    [Analysis \<lparr> pcd = currentPcd (pcdStage (hopRms p) mags
                                   (p\<lparr> analysisBuffer := hopFrame p, lastRms := hopRms p, fft := f' \<rparr>)),
                       rawPcd_detail = rawPcd (pcdStage (hopRms p) mags
                                   (p\<lparr> analysisBuffer := hopFrame p, lastRms := hopRms p, fft := f' \<rparr>)),
                       rms = hopRms p, magnitudes = mags,
                       primary = tunerStage (hopRms p) mags (pcdStage (hopRms p) mags
                                   (p\<lparr> analysisBuffer := hopFrame p, lastRms := hopRms p, fft := f' \<rparr>)),
                       sampleRate_detail = sampleRate p \<rparr>] \<rparr>)"
    using run t(1)
    by (simp add: processFrame_def Let_def hopFrame_def [symmetric] hopRms_def [symmetric])
  then show ?thesis using t(1,2) z by blast
qed

text \<open>
  C4. Every hop that a running, well-formed orchestrator processes updates each of the
  12 smoothed components as \<open>s * smoothed[i] + (1 - s) * raw[i]\<close>, where \<open>s\<close> is the
  configured smoothing clamped to \<open>[0, 0.999]\<close> (the configured smoothing itself when it
  is in that range, as after every \<open>updateConfig\<close>), whether the hop is gated or not. On a
  hop whose RMS is below the gate the raw distribution stored and emitted is all zero,
  so every smoothed component becomes \<open>s\<close> times its value: it loses the fraction
  \<open>1 - s\<close> of its value.
\<close>

theorem processFrame_smoothing:
  assumes "processor_inv p" "running p"
  shows "\<exists>p' d. processFrame p = Some p' \<and> dispatched p' = dispatched p @ [Analysis d]
     \<and> rawPcd_detail d = rawPcd p' \<and> pcd d = currentPcd p' \<and> rms d = hopRms p
     \<and> (\<forall>i<12. currentPcd p' ! i
            = clamp (smoothing (config p)) 0 0.999 * currentPcd p ! i
              + (1 - clamp (smoothing (config p)) 0 0.999) * rawPcd p' ! i)
     \<and> (0 \<le> smoothing (config p) \<and> smoothing (config p) \<le> 0.999 \<longrightarrow>
          (\<forall>i<12. currentPcd p' ! i
            = smoothing (config p) * currentPcd p ! i
              + (1 - smoothing (config p)) * rawPcd p' ! i))
     \<and> (hopRms p < pcdMinRms (config p) \<longrightarrow>
          rawPcd p' = replicate 12 0
          \<and> (\<forall>i<12. currentPcd p' ! i = clamp (smoothing (config p)) 0 0.999 * currentPcd p ! i
                \<and> currentPcd p ! i - currentPcd p' ! i
                    = (1 - clamp (smoothing (config p)) 0 0.999) * currentPcd p ! i))"
proof -
  let ?s = "clamp (smoothing (config p)) 0 0.999"
  obtain mags f' where t: "processFrame p =
         Some ((pcdStage (hopRms p) mags
                  (p\<lparr> analysisBuffer := hopFrame p, lastRms := hopRms p, fft := f' \<rparr>))
               \<lparr> dispatched := dispatched p @
                    [Analysis \<lparr> pcd = currentPcd (pcdStage (hopRms p) mags
                                   (p\<lparr> analysisBuffer := hopFrame p, lastRms := hopRms p, fft := f' \<rparr>)),
                       rawPcd_detail = rawPcd (pcdStage (hopRms p) mags
                                   (p\<lparr> analysisBuffer := hopFrame p, lastRms := hopRms p, fft := f' \<rparr>)),
                       rms = hopRms p, magnitudes = mags,
                       primary = tunerStage (hopRms p) mags (pcdStage (hopRms p) mags
                                   (p\<lparr> analysisBuffer := hopFrame p, lastRms := hopRms p, fft := f' \<rparr>)),
                       sampleRate_detail = sampleRate p \<rparr>] \<rparr>)"
    using processFrame_returns [OF assms] by blast
  let ?q = "p\<lparr> analysisBuffer := hopFrame p, lastRms := hopRms p, fft := f' \<rparr>"
  let ?p1 = "pcdStage (hopRms p) mags ?q"
  have c: "pcc_inv (pcdComputer ?q)" "length (rawPcd ?q) = 12" "length (currentPcd ?q) = 12"
    using assms(1) by (simp_all add: processor_inv_def)
  have raw: "rawPcd ?p1 = fst (rawStage (hopRms p) mags ?q)" by (rule pcdStage_rawPcd [OF c(1,2)])
  have cur: "currentPcd ?p1 = smoothLoop ?s (1 - ?s) (rawPcd ?p1) (currentPcd p)"
    using pcdStage_currentPcd [OF c(1,2), of "hopRms p" mags] raw by simp
  have step: "currentPcd ?p1 ! i = ?s * currentPcd p ! i + (1 - ?s) * rawPcd ?p1 ! i"
    if "i < 12" for i
    unfolding cur using c(3) that by (subst smoothLoop_nth) simp_all
  have same: "?s = smoothing (config p)"
    if "0 \<le> smoothing (config p) \<and> smoothing (config p) \<le> 0.999"
    using that by (intro clamp_id) simp_all
  have gated: "rawPcd ?p1 = replicate 12 0" if "hopRms p < pcdMinRms (config p)"
    using rawStage_props(5) [OF c(1), of "hopRms p" mags] that raw by simp
  have decay: "currentPcd ?p1 ! i = ?s * currentPcd p ! i
               \<and> currentPcd p ! i - currentPcd ?p1 ! i = (1 - ?s) * currentPcd p ! i"
    if "hopRms p < pcdMinRms (config p)" "i < 12" for i
    using step [OF that(2)] gated [OF that(1)] that(2) by (simp add: algebra_simps)
  let ?d = "\<lparr> pcd = currentPcd ?p1, rawPcd_detail = rawPcd ?p1, rms = hopRms p, magnitudes = mags,
               primary = tunerStage (hopRms p) mags ?p1, sampleRate_detail = sampleRate p \<rparr>"
  let ?p' = "?p1\<lparr> dispatched := dispatched p @ [Analysis ?d] \<rparr>"
  have f: "currentPcd ?p' = currentPcd ?p1" "rawPcd ?p' = rawPcd ?p1" by simp_all
  have c1: "\<forall>i<12. currentPcd ?p' ! i = ?s * currentPcd p ! i + (1 - ?s) * rawPcd ?p' ! i"
    unfolding f using step by blast
  have c2: "0 \<le> smoothing (config p) \<and> smoothing (config p) \<le> 0.999 \<longrightarrow>
          (\<forall>i<12. currentPcd ?p' ! i
            = smoothing (config p) * currentPcd p ! i
              + (1 - smoothing (config p)) * rawPcd ?p' ! i)"
  proof
    assume a: "0 \<le> smoothing (config p) \<and> smoothing (config p) \<le> 0.999"
    show "\<forall>i<12. currentPcd ?p' ! i
            = smoothing (config p) * currentPcd p ! i
              + (1 - smoothing (config p)) * rawPcd ?p' ! i"
      using c1 unfolding same [OF a] .
  qed
  have c3: "hopRms p < pcdMinRms (config p) \<longrightarrow>
          rawPcd ?p' = replicate 12 0
          \<and> (\<forall>i<12. currentPcd ?p' ! i = ?s * currentPcd p ! i
                \<and> currentPcd p ! i - currentPcd ?p' ! i = (1 - ?s) * currentPcd p ! i)"
    unfolding f using gated decay by blast
  have "processFrame p = Some ?p' \<and> dispatched ?p' = dispatched p @ [Analysis ?d]
     \<and> rawPcd_detail ?d = rawPcd ?p' \<and> pcd ?d = currentPcd ?p' \<and> rms ?d = hopRms p"
    using t by simp
  then show ?thesis using c1 c2 c3 by blast
qed

lemma scenario_processor_fields:
  "config scenario_processor = DEFAULT_AUDIO_CONFIG\<lparr> hopSize := 4096 \<rparr>"
  "tunerConfig scenario_processor = DEFAULT_TUNER_CONFIG"
  "running scenario_processor" "sampleRate scenario_processor = 48000"
  "ringBuffer scenario_processor = replicate 16384 0"
  "analysisBuffer scenario_processor = replicate 16384 0"
  "windowFn scenario_processor = hannFill 16384 (replicate 16384 0)"
  "writeIndex scenario_processor = 0" "filled scenario_processor = 0"
  "hopCounter scenario_processor = 0"
  "currentPcd scenario_processor = replicate 12 0" "rawPcd scenario_processor = replicate 12 0"
  "fft scenario_processor = new_RealFFT" "pcdComputer scenario_processor = new_PitchClassComputer"
  "dispatched scenario_processor = [StateChange True]" "lastRms scenario_processor = 0"
  by (simp_all add: scenario_processor_def start_acquired_def fresh_processor_def setRunning_def
      resetBuffers_def DEFAULT_AUDIO_CONFIG_def)

lemma window_16384: "\<exists>m. 5 \<le> m \<and> m \<le> 29 \<and> (16384::int) = 2 ^ m"
  by (rule exI [of _ 14]) simp

lemma scenario_processor_inv: "processor_inv scenario_processor"
  using window_16384
  by (simp add: processor_inv_def scenario_processor_fields DEFAULT_AUDIO_CONFIG_def
      new_RealFFT_inv new_PitchClassComputer_inv)

theorem processFrame_smoothing_witness:
  "\<exists>p'. processFrame (scenario_processor\<lparr> currentPcd := [1, 0, 0, 0, 0, 0, 0, 0, 0, 0, 0, 0] \<rparr>)
          = Some p'
     \<and> rawPcd p' = replicate 12 0 \<and> currentPcd p' ! 0 = 3 / 5"
proof -
  let ?p = "scenario_processor\<lparr> currentPcd := [1, 0, 0, 0, 0, 0, 0, 0, 0, 0, 0, 0] \<rparr>"
  have inv: "processor_inv ?p"
    using scenario_processor_inv by (simp add: processor_inv_def)
  have run: "running ?p" by (simp add: scenario_processor_fields)
  have "ringBuffer ?p = replicate (nat (windowSize (config ?p))) 0"
    by (simp add: scenario_processor_fields DEFAULT_AUDIO_CONFIG_def)
  then have r: "hopRms ?p = 0" by (rule hopFrame_zero(2) [OF inv])
  have g: "hopRms ?p < pcdMinRms (config ?p)"
    unfolding r by (simp add: scenario_processor_fields DEFAULT_AUDIO_CONFIG_def)
  have s: "clamp (smoothing (config ?p)) 0 0.999 = 3 / 5"
    by (simp add: scenario_processor_fields DEFAULT_AUDIO_CONFIG_def clamp_def)
  obtain p' where p': "processFrame ?p = Some p'"
      "hopRms ?p < pcdMinRms (config ?p) \<longrightarrow>
          rawPcd p' = replicate 12 0
          \<and> (\<forall>i<12. currentPcd p' ! i = clamp (smoothing (config ?p)) 0 0.999 * currentPcd ?p ! i
                \<and> currentPcd ?p ! i - currentPcd p' ! i
                    = (1 - clamp (smoothing (config ?p)) 0 0.999) * currentPcd ?p ! i)"
    using processFrame_smoothing [OF inv run] by blast
  have "rawPcd p' = replicate 12 0" "currentPcd p' ! 0 = 3 / 5 * currentPcd ?p ! 0"
    using p'(2) g unfolding s by auto
  then show ?thesis using p'(1) by simp
qed




lemma smoothLoop_zero:
  "smoothLoop s b (replicate 12 0) (replicate 12 0) = replicate 12 0"
  by (simp add: smoothLoop_eq list_eq_iff_nth_eq del: upt_Suc)

lemma runHops_config [simp]: "config (runHops hs p) = config p"
  by (induction hs p rule: runHops.induct) simp_all








section \<open>The sample loop (handleAudioFrame)\<close>

lemma storeSample_fields [simp]:
  "config (storeSample w x p) = config p" "tunerConfig (storeSample w x p) = tunerConfig p"
  "sampleRate (storeSample w x p) = sampleRate p" "running (storeSample w x p) = running p"
  "fft (storeSample w x p) = fft p" "pcdComputer (storeSample w x p) = pcdComputer p"
  "windowFn (storeSample w x p) = windowFn p"
  "analysisBuffer (storeSample w x p) = analysisBuffer p"
  "currentPcd (storeSample w x p) = currentPcd p" "rawPcd (storeSample w x p) = rawPcd p"
  "lastRms (storeSample w x p) = lastRms p" "dispatched (storeSample w x p) = dispatched p"
  "hopCounter (storeSample w x p) = hopCounter p + 1"
  "ringBuffer (storeSample w x p) = (ringBuffer p)[nat (writeIndex p) := x]"
  "filled (storeSample w x p) = (if filled p < w then filled p + 1 else filled p)"
  "writeIndex (storeSample w x p) = (if writeIndex p + 1 \<ge> w then 0 else writeIndex p + 1)"
  by (simp_all add: storeSample_def Let_def)

lemma storeSample_inv:
  assumes "processor_inv p"
  shows "processor_inv (storeSample (windowSize (config p)) x p)"
  using assms unfolding processor_inv_def by auto

lemma storeSample_zero:
  "ringBuffer p = replicate n 0 \<Longrightarrow> ringBuffer (storeSample w 0 p) = replicate n 0"
  by (simp add: replicate_update_same)

text \<open>One hop of a running, well-formed orchestrator, with the fields it leaves alone.\<close>

lemma processFrame_step:
  assumes inv: "processor_inv p" and run: "running p"
  shows "\<exists>p' d. processFrame p = Some p' \<and> processor_inv p'
     \<and> dispatched p' = dispatched p @ [Analysis d]
     \<and> config p' = config p \<and> tunerConfig p' = tunerConfig p \<and> running p'
     \<and> filled p' = filled p \<and> hopCounter p' = hopCounter p \<and> writeIndex p' = writeIndex p
     \<and> ringBuffer p' = ringBuffer p \<and> sampleRate p' = sampleRate p
     \<and> pcd d = currentPcd p' \<and> rawPcd_detail d = rawPcd p'
     \<and> (ringBuffer p = replicate (nat (windowSize (config p))) 0
          \<and> currentPcd p = replicate 12 0
          \<and> 0 < pcdMinRms (config p) \<and> 0 < minRMS (tunerConfig p) \<longrightarrow>
          currentPcd p' = replicate 12 0 \<and> rawPcd p' = replicate 12 0 \<and> primary d = None
          \<and> rms d = 0)"
proof -
  obtain mags f' where t: "fft_inv f'" "processFrame p =
         Some ((pcdStage (hopRms p) mags
                  (p\<lparr> analysisBuffer := hopFrame p, lastRms := hopRms p, fft := f' \<rparr>))
               \<lparr> dispatched := dispatched p @
                    [Analysis \<lparr> pcd = currentPcd (pcdStage (hopRms p) mags
                                   (p\<lparr> analysisBuffer := hopFrame p, lastRms := hopRms p, fft := f' \<rparr>)),
                       rawPcd_detail = rawPcd (pcdStage (hopRms p) mags
                                   (p\<lparr> analysisBuffer := hopFrame p, lastRms := hopRms p, fft := f' \<rparr>)),
                       rms = hopRms p, magnitudes = mags,
                       primary = tunerStage (hopRms p) mags (pcdStage (hopRms p) mags
                                   (p\<lparr> analysisBuffer := hopFrame p, lastRms := hopRms p, fft := f' \<rparr>)),
                       sampleRate_detail = sampleRate p \<rparr>] \<rparr>)"
    using processFrame_returns [OF assms] by blast
  let ?q = "p\<lparr> analysisBuffer := hopFrame p, lastRms := hopRms p, fft := f' \<rparr>"
  let ?p1 = "pcdStage (hopRms p) mags ?q"
  let ?d = "\<lparr> pcd = currentPcd ?p1, rawPcd_detail = rawPcd ?p1, rms = hopRms p, magnitudes = mags,
               primary = tunerStage (hopRms p) mags ?p1, sampleRate_detail = sampleRate p \<rparr>"
  let ?p' = "?p1\<lparr> dispatched := dispatched p @ [Analysis ?d] \<rparr>"
  have qinv: "processor_inv ?q"
    using inv t(1) hopFrame_length [OF inv] by (simp add: processor_inv_def)
  have p1inv: "processor_inv ?p1" using qinv by (rule pcdStage_inv)
  have p'inv: "processor_inv ?p'" using p1inv by (simp add: processor_inv_def)
  have c: "pcc_inv (pcdComputer ?q)" "length (rawPcd ?q) = 12"
    using qinv by (simp_all add: processor_inv_def)
  have silent: "currentPcd ?p' = replicate 12 0 \<and> rawPcd ?p' = replicate 12 0
                \<and> primary ?d = None \<and> rms ?d = 0"
    if a: "ringBuffer p = replicate (nat (windowSize (config p))) 0
          \<and> currentPcd p = replicate 12 0
          \<and> 0 < pcdMinRms (config p) \<and> 0 < minRMS (tunerConfig p)"
  proof -
    have r: "hopRms p = 0" using hopFrame_zero(2) [OF inv] a by simp
    have raw: "rawPcd ?p1 = replicate 12 0"
      unfolding pcdStage_rawPcd [OF c] using rawStage_props(5) [OF c(1), of "hopRms p" mags] a r
      by simp
    have fr: "fst (rawStage (hopRms p) mags ?q) = replicate 12 0"
      using raw unfolding pcdStage_rawPcd [OF c] .
    have cq: "currentPcd ?q = replicate 12 0" using a by simp
    have cur: "currentPcd ?p1 = replicate 12 0"
      unfolding pcdStage_currentPcd [OF c] fr cq by (rule smoothLoop_zero)
    have "tunerStage (hopRms p) mags ?p1 = None" using a r by (simp add: tunerStage_def)
    then show ?thesis using raw cur r by simp
  qed
  have "processFrame p = Some ?p' \<and> processor_inv ?p'
     \<and> dispatched ?p' = dispatched p @ [Analysis ?d]
     \<and> config ?p' = config p \<and> tunerConfig ?p' = tunerConfig p \<and> running ?p'
     \<and> filled ?p' = filled p \<and> hopCounter ?p' = hopCounter p \<and> writeIndex ?p' = writeIndex p
     \<and> ringBuffer ?p' = ringBuffer p \<and> sampleRate ?p' = sampleRate p
     \<and> pcd ?d = currentPcd ?p' \<and> rawPcd_detail ?d = rawPcd ?p'"
    using t(2) p'inv run by simp
  then show ?thesis using silent by blast
qed

lemma pushSample_quiet:
  assumes "hopCounter p + 1 < hopSize (config p) \<or> filled p + 1 < w"
  shows "pushSample w x p = Some (storeSample w x p)"
  using assms by (auto simp add: pushSample_def Let_def)

lemma pushSample_fire:
  assumes "hopSize (config p) \<le> hopCounter p + 1" "w - 1 \<le> filled p"
  shows "pushSample w x p = processFrame ((storeSample w x p)\<lparr> hopCounter := 0 \<rparr>)"
  using assms by (auto simp add: pushSample_def Let_def)

lemma sampleLoop_append:
  "sampleLoop w (xs @ ys) p = Option.bind (sampleLoop w xs p) (sampleLoop w ys)"
proof (induction xs arbitrary: p)
  case Nil
  show ?case by simp
next
  case (Cons x xs)
  show ?case by (cases "pushSample w x p") (simp_all add: Cons.IH)
qed

text \<open>While the ring buffer is filling, the loop only stores.\<close>

lemma sampleLoop_filling:
  "filled p + int (length frame) < w \<Longrightarrow>
   sampleLoop w frame p = Some (fold (storeSample w) frame p)"
proof (induction frame arbitrary: p)
  case Nil
  show ?case by simp
next
  case (Cons x xs)
  have q: "pushSample w x p = Some (storeSample w x p)"
    using Cons.prems by (intro pushSample_quiet) simp
  have "filled (storeSample w x p) + int (length xs) < w" using Cons.prems by simp
  from Cons.IH [OF this] show ?case by (simp add: q)
qed

lemma fold_store_fields [simp]:
  "config (fold (storeSample w) frame p) = config p"
  "tunerConfig (fold (storeSample w) frame p) = tunerConfig p"
  "running (fold (storeSample w) frame p) = running p"
  "dispatched (fold (storeSample w) frame p) = dispatched p"
  "currentPcd (fold (storeSample w) frame p) = currentPcd p"
  "hopCounter (fold (storeSample w) frame p) = hopCounter p + int (length frame)"
  by (induction frame arbitrary: p) simp_all

lemma fold_store_filled:
  "filled p + int (length frame) \<le> w \<Longrightarrow>
   filled (fold (storeSample w) frame p) = filled p + int (length frame)"
  by (induction frame arbitrary: p) simp_all

lemma fold_store_inv:
  "processor_inv p \<Longrightarrow> w = windowSize (config p) \<Longrightarrow>
   processor_inv (fold (storeSample w) frame p)"
proof (induction frame arbitrary: p)
  case Nil
  then show ?case by simp
next
  case (Cons x xs)
  have "processor_inv (storeSample w x p)" using Cons.prems storeSample_inv by simp
  from Cons.IH [OF this] Cons.prems(2) show ?case by simp
qed

lemma fold_store_zero:
  "ringBuffer p = replicate n 0 \<Longrightarrow>
   ringBuffer (fold (storeSample w) (replicate k 0) p) = replicate n 0"
proof (induction k arbitrary: p)
  case 0
  then show ?case by simp
next
  case (Suc k)
  have "ringBuffer (storeSample w 0 p) = replicate n 0" using Suc.prems by (rule storeSample_zero)
  from Suc.IH [OF this] show ?case by (simp del: fold_replicate)
qed

text \<open>Once the ring buffer is full, a hop starts at every \<open>hopSize\<close>-th sample.\<close>

lemma sampleLoop_steady:
  assumes "processor_inv p" "running p" "w = windowSize (config p)" "filled p = w"
    "0 \<le> hopCounter p" "hopCounter p < hopSize (config p)"
  shows "\<exists>p' ds. sampleLoop w frame p = Some p' \<and> processor_inv p' \<and> running p'
     \<and> config p' = config p \<and> filled p' = w
     \<and> dispatched p' = dispatched p @ map Analysis ds
     \<and> int (length ds) = (hopCounter p + int (length frame)) div hopSize (config p)
     \<and> hopCounter p' = (hopCounter p + int (length frame)) mod hopSize (config p)"
  using assms
proof (induction frame arbitrary: p)
  case Nil
  have "dispatched p = dispatched p @ map Analysis []" by simp
  then show ?case using Nil by (intro exI [of _ p] exI [of _ "[]"]) simp
next
  case (Cons x xs)
  let ?q = "storeSample w x p"
  let ?h = "hopSize (config p)"
  have qinv: "processor_inv ?q" using Cons.prems storeSample_inv by simp
  show ?case
  proof (cases "hopCounter p + 1 < ?h")
    case True
    have ps: "pushSample w x p = Some ?q" using True by (intro pushSample_quiet) simp
    have "\<exists>p' ds. sampleLoop w xs ?q = Some p' \<and> processor_inv p' \<and> running p'
       \<and> config p' = config ?q \<and> filled p' = w
       \<and> dispatched p' = dispatched ?q @ map Analysis ds
       \<and> int (length ds) = (hopCounter ?q + int (length xs)) div hopSize (config ?q)
       \<and> hopCounter p' = (hopCounter ?q + int (length xs)) mod hopSize (config ?q)"
      using qinv Cons.prems True by (intro Cons.IH) simp_all
    then obtain p' ds where r: "sampleLoop w xs ?q = Some p'" "processor_inv p'" "running p'"
      "config p' = config p" "filled p' = w" "dispatched p' = dispatched p @ map Analysis ds"
      "int (length ds) = (hopCounter p + 1 + int (length xs)) div ?h"
      "hopCounter p' = (hopCounter p + 1 + int (length xs)) mod ?h"
      by auto
    have e: "hopCounter p + int (length (x # xs)) = hopCounter p + 1 + int (length xs)" by simp
    show ?thesis unfolding e using r ps by (intro exI [of _ p'] exI [of _ ds]) simp
  next
    case False
    then have hc: "hopCounter p + 1 = ?h" using Cons.prems by simp
    let ?z = "?q\<lparr> hopCounter := 0 \<rparr>"
    have ps: "pushSample w x p = processFrame ?z"
      using hc Cons.prems by (intro pushSample_fire) simp_all
    have q0inv: "processor_inv ?z" using qinv by (simp add: processor_inv_def)
    have q0run: "running ?z" using Cons.prems by simp
    obtain p1 d where s: "processFrame ?z = Some p1" "processor_inv p1"
      "dispatched p1 = dispatched ?z @ [Analysis d]" "config p1 = config ?z" "running p1"
      "filled p1 = filled ?z" "hopCounter p1 = hopCounter ?z"
      using processFrame_step [OF q0inv q0run] by blast
    have s': "dispatched p1 = dispatched p @ [Analysis d]" "config p1 = config p"
      "filled p1 = w" "hopCounter p1 = 0"
      using s Cons.prems by simp_all
    have hpos: "0 < ?h" using Cons.prems by simp
    have "\<exists>p' ds. sampleLoop w xs p1 = Some p' \<and> processor_inv p' \<and> running p'
       \<and> config p' = config p1 \<and> filled p' = w
       \<and> dispatched p' = dispatched p1 @ map Analysis ds
       \<and> int (length ds) = (hopCounter p1 + int (length xs)) div hopSize (config p1)
       \<and> hopCounter p' = (hopCounter p1 + int (length xs)) mod hopSize (config p1)"
      using s(2,5) s' Cons.prems(3) hpos by (intro Cons.IH) simp_all
    then obtain p' ds where r: "sampleLoop w xs p1 = Some p'" "processor_inv p'" "running p'"
      "config p' = config p" "filled p' = w"
      "dispatched p' = dispatched p @ map Analysis (d # ds)"
      "int (length ds) = int (length xs) div ?h"
      "hopCounter p' = int (length xs) mod ?h"
      using s' by auto
    have e: "hopCounter p + int (length (x # xs)) = ?h + int (length xs)" using hc by simp
    have d1: "(?h + int (length xs)) div ?h = 1 + int (length xs) div ?h"
      using hpos by simp
    have m1: "(?h + int (length xs)) mod ?h = int (length xs) mod ?h" by simp
    have l: "int (length (d # ds)) = 1 + int (length xs) div ?h" using r(7) by simp
    show ?thesis unfolding e d1 m1
      using r(1-6,8) l ps s(1) by (intro exI [of _ p'] exI [of _ "d # ds"]) simp
  qed
qed

text \<open>
  The first window after a reset: no hop before the last sample of the window, one hop
  at it; on silence the event is the silent one.
\<close>

lemma first_window_silence:
  assumes inv: "processor_inv p" and run: "running p" and w: "w = windowSize (config p)"
    and f: "filled p = 0" and h: "hopCounter p = 0"
    and hs: "hopSize (config p) \<le> w"
    and ring: "ringBuffer p = replicate (nat w) 0" and cur: "currentPcd p = replicate 12 0"
    and g: "0 < pcdMinRms (config p)" "0 < minRMS (tunerConfig p)"
  shows "\<exists>p' d. sampleLoop w (replicate (nat w) 0) p = Some p' \<and> processor_inv p' \<and> running p'
     \<and> config p' = config p \<and> filled p' = w \<and> hopCounter p' = 0
     \<and> dispatched p' = dispatched p @ [Analysis d]
     \<and> pcd d = replicate 12 0 \<and> rawPcd_detail d = replicate 12 0 \<and> primary d = None"
proof -
  have wpos: "32 \<le> w"
  proof -
    obtain m :: nat where m: "5 \<le> m" "w = 2 ^ m" using inv w unfolding processor_inv_def by auto
    have "(2::int) ^ 5 \<le> 2 ^ m" using m(1) by (intro power_increasing) simp_all
    then show ?thesis using m(2) by simp
  qed
  define k where "k = nat w - 1"
  have k: "nat w = Suc k" "int k = w - 1" using wpos by (simp_all add: k_def)
  have split: "replicate (nat w) (0::real) = replicate k 0 @ [0]"
    unfolding k(1) by (simp add: replicate_append_same)
  let ?p1 = "fold (storeSample w) (replicate k 0) p"
  have l1: "sampleLoop w (replicate k 0) p = Some ?p1"
    using f k(2) by (intro sampleLoop_filling) simp
  have p1: "processor_inv ?p1" "running ?p1" "config ?p1 = config p" "filled ?p1 = w - 1"
    "hopCounter ?p1 = w - 1" "ringBuffer ?p1 = replicate (nat w) 0"
    "currentPcd ?p1 = replicate 12 0" "dispatched ?p1 = dispatched p"
    "tunerConfig ?p1 = tunerConfig p"
    using fold_store_inv [OF inv w] run f h k(2) cur fold_store_zero [OF ring]
      fold_store_filled [of p "replicate k 0" w]
    by (simp_all del: fold_replicate)
  let ?q = "storeSample w 0 ?p1"
  let ?z = "?q\<lparr> hopCounter := 0 \<rparr>"
  have ps: "pushSample w 0 ?p1 = processFrame ?z"
    using p1(3,4,5) hs by (intro pushSample_fire) simp_all
  have qinv: "processor_inv ?q" using storeSample_inv [OF p1(1), of 0] p1(3) w by simp
  have q0inv: "processor_inv ?z" using qinv by (simp add: processor_inv_def)
  have q0run: "running ?z" using p1(2) by simp
  have q0: "ringBuffer ?z = replicate (nat (windowSize (config ?z))) 0"
    "currentPcd ?z = replicate 12 0" "0 < pcdMinRms (config ?z)" "0 < minRMS (tunerConfig ?z)"
    using storeSample_zero [OF p1(6), of w] p1(3,7,9) w g by simp_all
  obtain p' d where s: "processFrame ?z = Some p'" "processor_inv p'"
    "dispatched p' = dispatched ?z @ [Analysis d]" "config p' = config ?z" "running p'"
    "filled p' = filled ?z" "hopCounter p' = hopCounter ?z"
    "pcd d = currentPcd p'" "rawPcd_detail d = rawPcd p'"
    "currentPcd p' = replicate 12 0 \<and> rawPcd p' = replicate 12 0 \<and> primary d = None"
    using processFrame_step [OF q0inv q0run] q0 by blast
  have "sampleLoop w (replicate (nat w) 0) p = Some p'"
    unfolding split sampleLoop_append l1 by (simp add: ps s(1) del: fold_replicate)
  moreover have "config p' = config p" "filled p' = w" "hopCounter p' = 0"
    "dispatched p' = dispatched p @ [Analysis d]"
    using s p1 by simp_all
  ultimately show ?thesis using s(2,5,8,9,10) by (intro exI [of _ p'] exI [of _ d]) simp
qed

lemma scenario_processor_config:
  "windowSize (config scenario_processor) = 16384" "hopSize (config scenario_processor) = 4096"
  "pcdMinRms (config scenario_processor) = 1 / 1000"
  "minRMS (tunerConfig scenario_processor) = 3 / 1000"
  by (simp_all add: scenario_processor_fields DEFAULT_AUDIO_CONFIG_def DEFAULT_TUNER_CONFIG_def)

lemmas scenario_simps = scenario_processor_fields(3-16) scenario_processor_config

text \<open>
  Claim C7 (as the code has it).  While the orchestrator is Running:
  (1) as long as fewer than \<open>windowSize\<close> samples have arrived since the last reset, a chunk
  of samples emits no event at all, and the hop counter keeps counting;
  (2) once the ring buffer is full, a chunk of \<open>n\<close> samples arriving at hop counter \<open>c\<close>
  emits exactly \<open>(c + n) div hopSize\<close> analysis events, one at every \<open>hopSize\<close>-th sample,
  and leaves the hop counter at \<open>(c + n) mod hopSize\<close>;
  (3) from a reset state, with \<open>hopSize \<le> windowSize\<close> and positive RMS gates, a whole window
  of silence emits exactly one analysis event, with zero smoothed and raw PCD and no
  primary-pitch result; after it the ring buffer is full and the hop counter is 0.
\<close>

theorem handleAudioFrame_hops:
  "(running p \<and> filled p + int (length frame) < windowSize (config p) \<longrightarrow>
      (\<exists>p'. handleAudioFrame frame p = Some p' \<and> dispatched p' = dispatched p
          \<and> filled p' = filled p + int (length frame)
          \<and> hopCounter p' = hopCounter p + int (length frame)))
   \<and> (processor_inv p \<and> running p \<and> filled p = windowSize (config p)
        \<and> 0 \<le> hopCounter p \<and> hopCounter p < hopSize (config p) \<longrightarrow>
      (\<exists>p' ds. handleAudioFrame frame p = Some p'
          \<and> dispatched p' = dispatched p @ map Analysis ds
          \<and> int (length ds) = (hopCounter p + int (length frame)) div hopSize (config p)
          \<and> hopCounter p' = (hopCounter p + int (length frame)) mod hopSize (config p)
          \<and> processor_inv p' \<and> running p' \<and> config p' = config p
          \<and> filled p' = windowSize (config p)))
   \<and> (processor_inv p \<and> running p \<and> filled p = 0 \<and> hopCounter p = 0
        \<and> hopSize (config p) \<le> windowSize (config p)
        \<and> ringBuffer p = silence (nat (windowSize (config p)))
        \<and> currentPcd p = replicate 12 0
        \<and> 0 < pcdMinRms (config p) \<and> 0 < minRMS (tunerConfig p)
        \<and> frame = silence (nat (windowSize (config p))) \<longrightarrow>
      (\<exists>p' d. handleAudioFrame frame p = Some p'
          \<and> dispatched p' = dispatched p @ [Analysis d]
          \<and> pcd d = replicate 12 0 \<and> rawPcd_detail d = replicate 12 0 \<and> primary d = None
          \<and> filled p' = windowSize (config p) \<and> hopCounter p' = 0))"
proof (intro conjI impI)
  assume a: "running p \<and> filled p + int (length frame) < windowSize (config p)"
  then have "handleAudioFrame frame p
             = Some (fold (storeSample (windowSize (config p))) frame p)"
    by (simp add: handleAudioFrame_def sampleLoop_filling)
  then show "\<exists>p'. handleAudioFrame frame p = Some p' \<and> dispatched p' = dispatched p
          \<and> filled p' = filled p + int (length frame)
          \<and> hopCounter p' = hopCounter p + int (length frame)"
    using a by (simp add: fold_store_filled)
next
  assume a: "processor_inv p \<and> running p \<and> filled p = windowSize (config p)
        \<and> 0 \<le> hopCounter p \<and> hopCounter p < hopSize (config p)"
  then have h: "handleAudioFrame frame p = sampleLoop (windowSize (config p)) frame p"
    by (simp add: handleAudioFrame_def)
  have "\<exists>p' ds. sampleLoop (windowSize (config p)) frame p = Some p' \<and> processor_inv p'
     \<and> running p' \<and> config p' = config p \<and> filled p' = windowSize (config p)
     \<and> dispatched p' = dispatched p @ map Analysis ds
     \<and> int (length ds) = (hopCounter p + int (length frame)) div hopSize (config p)
     \<and> hopCounter p' = (hopCounter p + int (length frame)) mod hopSize (config p)"
    using a by (intro sampleLoop_steady) simp_all
  then show "\<exists>p' ds. handleAudioFrame frame p = Some p'
          \<and> dispatched p' = dispatched p @ map Analysis ds
          \<and> int (length ds) = (hopCounter p + int (length frame)) div hopSize (config p)
          \<and> hopCounter p' = (hopCounter p + int (length frame)) mod hopSize (config p)
          \<and> processor_inv p' \<and> running p' \<and> config p' = config p
          \<and> filled p' = windowSize (config p)"
    unfolding h by blast
next
  assume a: "processor_inv p \<and> running p \<and> filled p = 0 \<and> hopCounter p = 0
        \<and> hopSize (config p) \<le> windowSize (config p)
        \<and> ringBuffer p = silence (nat (windowSize (config p)))
        \<and> currentPcd p = replicate 12 0
        \<and> 0 < pcdMinRms (config p) \<and> 0 < minRMS (tunerConfig p)
        \<and> frame = silence (nat (windowSize (config p)))"
  then have h: "handleAudioFrame frame p
      = sampleLoop (windowSize (config p)) (replicate (nat (windowSize (config p))) 0) p"
    by (simp add: handleAudioFrame_def silence_def)
  have "\<exists>p' d. sampleLoop (windowSize (config p)) (replicate (nat (windowSize (config p))) 0) p
        = Some p' \<and> processor_inv p' \<and> running p'
     \<and> config p' = config p \<and> filled p' = windowSize (config p) \<and> hopCounter p' = 0
     \<and> dispatched p' = dispatched p @ [Analysis d]
     \<and> pcd d = replicate 12 0 \<and> rawPcd_detail d = replicate 12 0 \<and> primary d = None"
    using a by (intro first_window_silence) (simp_all add: silence_def)
  then show "\<exists>p' d. handleAudioFrame frame p = Some p'
          \<and> dispatched p' = dispatched p @ [Analysis d]
          \<and> pcd d = replicate 12 0 \<and> rawPcd_detail d = replicate 12 0 \<and> primary d = None
          \<and> filled p' = windowSize (config p) \<and> hopCounter p' = 0"
    unfolding h by blast
qed

theorem handleAudioFrame_hops_witness:
  "(\<exists>p'. handleAudioFrame (silence 4096) scenario_processor = Some p'
       \<and> dispatched p' = [StateChange True] \<and> hopCounter p' = 4096)
   \<and> (\<exists>p' d. handleAudioFrame (silence 4096) (scenario_processor\<lparr> filled := 16384 \<rparr>) = Some p'
       \<and> dispatched p' = [StateChange True, Analysis d] \<and> hopCounter p' = 0)
   \<and> (\<exists>p' d. handleAudioFrame (silence 16384) scenario_processor = Some p'
       \<and> dispatched p' = [StateChange True, Analysis d]
       \<and> pcd d = replicate 12 0 \<and> rawPcd_detail d = replicate 12 0 \<and> primary d = None)"
proof (intro conjI)
  show "\<exists>p'. handleAudioFrame (silence 4096) scenario_processor = Some p'
       \<and> dispatched p' = [StateChange True] \<and> hopCounter p' = 4096"
    using handleAudioFrame_hops [of scenario_processor "silence 4096"]
    by (auto simp add: scenario_simps silence_def)
next
  let ?p = "scenario_processor\<lparr> filled := 16384 \<rparr>"
  have inv: "processor_inv ?p" using scenario_processor_inv by (simp add: processor_inv_def)
  have "\<exists>p' ds. handleAudioFrame (silence 4096) ?p = Some p'
          \<and> dispatched p' = [StateChange True] @ map Analysis ds
          \<and> int (length ds) = 1 \<and> hopCounter p' = 0"
    using handleAudioFrame_hops [of ?p "silence 4096"] inv
    by (auto simp add: scenario_simps silence_def)
  then obtain p' ds where r: "handleAudioFrame (silence 4096) ?p = Some p'"
    "dispatched p' = [StateChange True] @ map Analysis ds" "length ds = 1" "hopCounter p' = 0"
    by auto
  obtain d where "ds = [d]" using r(3) by (cases ds) simp_all
  then show "\<exists>p' d. handleAudioFrame (silence 4096) ?p = Some p'
       \<and> dispatched p' = [StateChange True, Analysis d] \<and> hopCounter p' = 0"
    using r by simp
next
  show "\<exists>p' d. handleAudioFrame (silence 16384) scenario_processor = Some p'
       \<and> dispatched p' = [StateChange True, Analysis d]
       \<and> pcd d = replicate 12 0 \<and> rawPcd_detail d = replicate 12 0 \<and> primary d = None"
    using handleAudioFrame_hops [of scenario_processor "silence 16384"] scenario_processor_inv
    by (auto simp add: scenario_simps silence_def)
qed

text \<open>
  In the scenario of section 8 the first hop of silence emits no analysis event, and the
  four hops of silence together emit one, not four.
\<close>

theorem first_hops_emit_one_event:
  "analysisCount (silence 4096) scenario_processor = Some 0
   \<and> analysisCount (silence 8192) scenario_processor = Some 0
   \<and> analysisCount (silence 12288) scenario_processor = Some 0
   \<and> analysisCount (silence 16384) scenario_processor = Some 1"
proof -
  have quiet: "analysisCount (silence n) scenario_processor = Some 0" if "n < 16384" for n
  proof -
    have "handleAudioFrame (silence n) scenario_processor
          = Some (fold (storeSample 16384) (silence n) scenario_processor)"
      using that
      by (simp add: handleAudioFrame_def scenario_simps sampleLoop_filling silence_def
          del: fold_replicate)
    then show ?thesis
      by (simp add: analysisCount_def scenario_simps del: fold_replicate)
  qed
  have "\<exists>p' d. sampleLoop 16384 (replicate (nat 16384) 0) scenario_processor = Some p'
     \<and> processor_inv p' \<and> running p'
     \<and> config p' = config scenario_processor \<and> filled p' = 16384 \<and> hopCounter p' = 0
     \<and> dispatched p' = dispatched scenario_processor @ [Analysis d]
     \<and> pcd d = replicate 12 0 \<and> rawPcd_detail d = replicate 12 0 \<and> primary d = None"
    using scenario_processor_inv
    by (intro first_window_silence)
      (simp_all add: scenario_simps)
  then obtain p' d where "sampleLoop 16384 (replicate 16384 0) scenario_processor = Some p'"
    "dispatched p' = [StateChange True, Analysis d]"
    by (auto simp add: scenario_simps)
  then have "analysisCount (silence 16384) scenario_processor = Some 1"
    by (simp add: analysisCount_def handleAudioFrame_def scenario_simps silence_def)
  then show ?thesis using quiet [of 4096] quiet [of 8192] quiet [of 12288] by simp
qed

end
